theory Spec2Isabelle
  imports Complex_Main "HOL-Library.Word"
begin

section \<open>Shared data model\<close>

text \<open>
  \<^verbatim>\<open>interface AudioChunkStreamOutput { i: number; chunk: Buffer; }\<close>

  The field \<open>i\<close> is \<open>out_i\<close> and the field \<open>chunk\<close> is \<open>out_chunk\<close>. Indices are JavaScript
  numbers holding integers (the sentinel \<open>-1\<close> included), hence \<open>int\<close>. The record is
  polymorphic in the representation of the chunk: a plain byte list where only the contents
  matter, a typed-array view where the underlying buffer matters.
\<close>

type_synonym byte = "8 word"

record 'c AudioChunkStreamOutput =
  out_i :: int
  out_chunk :: 'c

type_synonym frame = "byte list AudioChunkStreamOutput"

section \<open>AudioChunkStreamOrderer\<close>

text \<open>
  The fields of the class. \<open>maxUnorderedChunks\<close> is a number of frames (default 10),
  hence \<open>nat\<close>; \<open>nextEmittableChunkIndex\<close> starts at the sentinel \<open>-1\<close>.
\<close>

record AudioChunkStreamOrderer =
  buffer :: "frame list"
  nextEmittableChunkIndex :: int
  maxUnorderedChunks :: nat

definition new_AudioChunkStreamOrderer :: "nat \<Rightarrow> AudioChunkStreamOrderer" where
  "new_AudioChunkStreamOrderer m =
     \<lparr>buffer = [], nextEmittableChunkIndex = - 1, maxUnorderedChunks = m\<rparr>"

text \<open>
  \<open>emitChunk\<close>: \<^verbatim>\<open>super.write(chunk); this.nextEmittableChunkIndex = chunk.i + 1\<close>.
  Every operation of the model returns the new state and the frames written downstream,
  in order.
\<close>

definition emitChunk ::
  "frame \<Rightarrow> AudioChunkStreamOrderer \<Rightarrow> AudioChunkStreamOrderer \<times> frame list" where
  "emitChunk c st = (st\<lparr>nextEmittableChunkIndex := out_i c + 1\<rparr>, [c])"

text \<open>
  \<open>emitNextChunksInBuffer\<close>: while the buffer is not empty and its first frame has the
  next emittable index, emit that frame and remove it (\<open>splice(0, 1)\<close>).
\<close>

function emitNextChunksInBuffer ::
  "AudioChunkStreamOrderer \<Rightarrow> AudioChunkStreamOrderer \<times> frame list" where
  "emitNextChunksInBuffer st =
     (case buffer st of
        [] \<Rightarrow> (st, [])
      | c # cs \<Rightarrow>
          if out_i c = nextEmittableChunkIndex st then
            (case emitChunk c st of
               (st1, o1) \<Rightarrow>
                 (case emitNextChunksInBuffer (st1\<lparr>buffer := cs\<rparr>) of
                    (st2, o2) \<Rightarrow> (st2, o1 @ o2)))
          else (st, []))"
  by pat_completeness auto
termination
  by (relation "measure (\<lambda>st. length (buffer st))") (auto simp: emitChunk_def)

declare emitNextChunksInBuffer.simps [simp del]

text \<open>
  The first part of \<open>write\<close> (anchor, late-frame test, passthrough or push, sort, drain).
  \<open>None\<close> is the early \<^verbatim>\<open>return true\<close> of a late frame; the anchor assignment
  made before it is kept in the state returned by \<open>orderer_write\<close> below.
  \<open>buffer.sort((a, b) => a.i - b.i)\<close> is a stable sort on the index.
\<close>

definition orderer_anchor :: "AudioChunkStreamOrderer \<Rightarrow> frame \<Rightarrow> AudioChunkStreamOrderer" where
  "orderer_anchor st d =
     (if nextEmittableChunkIndex st = - 1 then st\<lparr>nextEmittableChunkIndex := out_i d\<rparr> else st)"

definition orderer_insert ::
  "AudioChunkStreamOrderer \<Rightarrow> frame \<Rightarrow> (AudioChunkStreamOrderer \<times> frame list) option" where
  "orderer_insert st d =
     (let st0 = orderer_anchor st d in
      if out_i d < nextEmittableChunkIndex st0 then None
      else
        (case (if nextEmittableChunkIndex st0 = out_i d then emitChunk d st0
               else (st0\<lparr>buffer := buffer st0 @ [d]\<rparr>, [])) of
           (st1, o1) \<Rightarrow>
             (case emitNextChunksInBuffer (st1\<lparr>buffer := sort_key out_i (buffer st1)\<rparr>) of
                (st2, o2) \<Rightarrow> Some (st2, o1 @ o2))))"

text \<open>
  The second part of \<open>write\<close>, under the comment ``gap is too big, giving up on waiting
  for the chunk to be received'': if the buffer is not empty and holds at least
  \<open>maxUnorderedChunks\<close> frames, conceal a single missing frame with an empty one
  (\<open>Buffer.alloc(0)\<close>), restart from the oldest buffered frame and drain.
\<close>

definition orderer_overflow ::
  "AudioChunkStreamOrderer \<Rightarrow> AudioChunkStreamOrderer \<times> frame list" where
  "orderer_overflow st =
     (if buffer st \<noteq> [] \<and> maxUnorderedChunks st \<le> length (buffer st) then
        (case (if out_i (hd (buffer st)) - nextEmittableChunkIndex st = 1
               then emitChunk \<lparr>out_i = nextEmittableChunkIndex st, out_chunk = []\<rparr> st
               else (st, [])) of
           (st1, o1) \<Rightarrow>
             (case emitNextChunksInBuffer
                     (st1\<lparr>nextEmittableChunkIndex := out_i (hd (buffer st1))\<rparr>) of
                (st2, o2) \<Rightarrow> (st2, o1 @ o2)))
      else (st, []))"

definition orderer_write ::
  "AudioChunkStreamOrderer \<Rightarrow> frame \<Rightarrow> AudioChunkStreamOrderer \<times> frame list" where
  "orderer_write st d =
     (case orderer_insert st d of
        None \<Rightarrow> (orderer_anchor st d, [])
      | Some (st2, o2) \<Rightarrow>
          (case orderer_overflow st2 of (st3, o3) \<Rightarrow> (st3, o2 @ o3)))"

text \<open>Feeding a sequence of frames, one \<open>write\<close> each, and collecting what is emitted.\<close>

fun orderer_writes ::
  "AudioChunkStreamOrderer \<Rightarrow> frame list \<Rightarrow> AudioChunkStreamOrderer \<times> frame list" where
  "orderer_writes st [] = (st, [])"
| "orderer_writes st (d # ds) =
     (case orderer_write st d of
        (st1, o1) \<Rightarrow> (case orderer_writes st1 ds of (st2, o2) \<Rightarrow> (st2, o1 @ o2)))"

text \<open>A frame with a given index and a one-byte payload, for the scenarios.\<close>

definition frame_of :: "int \<Rightarrow> frame" where
  "frame_of n = \<lparr>out_i = n, out_chunk = [word_of_int n]\<rparr>"

text \<open>The scenarios S6 (single-gap conceal) and S7 (large-gap skip) of the specification.\<close>

definition S6_input :: "frame list" where
  "S6_input = map frame_of [0, 2, 3, 4, 5, 6, 7, 8, 9, 10, 11]"

definition S7_input :: "frame list" where
  "S7_input = map frame_of [0, 5, 6, 7, 8, 9, 10, 11, 12, 13, 14]"

text \<open>The state of the orderer in scenario S6 just before frame 11 arrives, and an input
  in which the transport duplicates frame 2 while frame 1 is still missing.\<close>

definition S6_state :: AudioChunkStreamOrderer where
  "S6_state = fst (orderer_writes (new_AudioChunkStreamOrderer 10) (butlast S6_input))"

definition duplicate_input :: "frame list" where
  "duplicate_input = map frame_of [0, 2, 2, 1, 4, 5, 6, 7, 8, 9, 10, 11, 12]"

text \<open>
  For inputs without duplicates: the buffer is strictly sorted and lies above the next
  emittable index; and the frames emitted by a step are strictly increasing between two
  bounds.
\<close>

definition orderer_inv :: "AudioChunkStreamOrderer \<Rightarrow> bool" where
  "orderer_inv st \<longleftrightarrow>
     sorted_wrt (<) (map out_i (buffer st)) \<and>
     (\<forall>c\<in>set (buffer st). nextEmittableChunkIndex st < out_i c) \<and>
     (nextEmittableChunkIndex st = - 1 \<and> buffer st = [] \<or> 0 \<le> nextEmittableChunkIndex st)"

definition emitted_between :: "int \<Rightarrow> frame list \<Rightarrow> int \<Rightarrow> bool" where
  "emitted_between lo out hi \<longleftrightarrow>
     sorted_wrt (<) (map out_i out) \<and> (\<forall>c\<in>set out. lo \<le> out_i c \<and> out_i c < hi) \<and> lo \<le> hi"

section \<open>Typed arrays and the framer\<close>

text \<open>
  ArrayBuffers live in a heap, addressed by position; allocation appends. A typed array
  (a \<open>Uint8Array\<close> or a Node \<open>Buffer\<close>) is a view: its ArrayBuffer (\<open>ta_buffer\<close>, the
  field \<open>buffer\<close>), \<open>byteOffset\<close> and \<open>byteLength\<close>. Two views alias exactly if they
  name the same ArrayBuffer. Operations that throw in JavaScript return \<open>Inl\<close>.
\<close>

type_synonym heap = "byte list list"

record TypedArray =
  ta_buffer :: nat
  byteOffset :: nat
  byteLength :: nat
  instanceofBuffer :: bool

datatype error = RangeError | AssertionError

text \<open>
  A view is valid in a heap if its ArrayBuffer exists and the view lies inside it;
  \<open>ta_bytes\<close> are the bytes that the view shows.
\<close>

definition ta_valid :: "heap \<Rightarrow> TypedArray \<Rightarrow> bool" where
  "ta_valid h a \<longleftrightarrow>
     ta_buffer a < length h \<and> byteOffset a + byteLength a \<le> length (h ! ta_buffer a)"

definition ta_bytes :: "heap \<Rightarrow> TypedArray \<Rightarrow> byte list" where
  "ta_bytes h a = take (byteLength a) (drop (byteOffset a) (h ! ta_buffer a))"

text \<open>
  \<open>new Uint8Array(n)\<close>: a new ArrayBuffer of \<open>n\<close> zero bytes and a view on all of it.
\<close>

definition new_Uint8Array :: "heap \<Rightarrow> nat \<Rightarrow> heap \<times> TypedArray" where
  "new_Uint8Array h n =
     (h @ [replicate n 0],
      \<lparr>ta_buffer = length h, byteOffset = 0, byteLength = n, instanceofBuffer = False\<rparr>)"

text \<open>
  Overwriting a part of a byte list, and \<open>a.set(source, offset)\<close>, which throws a
  \<open>RangeError\<close> if the source does not fit behind the offset.
\<close>

definition write_bytes :: "byte list \<Rightarrow> nat \<Rightarrow> byte list \<Rightarrow> byte list" where
  "write_bytes buf pos bs = take pos buf @ bs @ drop (pos + length bs) buf"

definition ta_set :: "heap \<Rightarrow> TypedArray \<Rightarrow> byte list \<Rightarrow> nat \<Rightarrow> error + heap" where
  "ta_set h a src off =
     (if byteLength a < off + length src then Inl RangeError
      else Inr (h[ta_buffer a := write_bytes (h ! ta_buffer a) (byteOffset a + off) src]))"

text \<open>
  The four bytes of a number as an unsigned 32-bit integer (\<open>ToUint32\<close>: modulo \<open>2^32\<close>),
  most significant byte first, and the number that four bytes stand for.
\<close>

definition be32 :: "int \<Rightarrow> byte list" where
  "be32 v = (let u = v mod 2 ^ 32 in
     [word_of_int (u div 2 ^ 24), word_of_int (u div 2 ^ 16), word_of_int (u div 2 ^ 8),
      word_of_int u])"

definition from_be32 :: "byte list \<Rightarrow> int" where
  "from_be32 bs =
     uint (bs ! 0) * 2 ^ 24 + uint (bs ! 1) * 2 ^ 16 + uint (bs ! 2) * 2 ^ 8 + uint (bs ! 3)"

text \<open>
  \<open>new DataView(buffer, byteOffset).setUint32(pos, v)\<close> and \<open>.getUint32(pos)\<close>, big endian
  as the default is. The view runs from \<open>byteOffset\<close> to the end of the ArrayBuffer; both
  throw a \<open>RangeError\<close> if four bytes from \<open>pos\<close> do not lie inside it.
\<close>

definition setUint32 :: "heap \<Rightarrow> nat \<Rightarrow> nat \<Rightarrow> nat \<Rightarrow> int \<Rightarrow> error + heap" where
  "setUint32 h b vo pos v =
     (if length (h ! b) < vo \<or> length (h ! b) - vo < pos + 4 then Inl RangeError
      else Inr (h[b := write_bytes (h ! b) (vo + pos) (be32 v)]))"

definition getUint32 :: "heap \<Rightarrow> nat \<Rightarrow> nat \<Rightarrow> nat \<Rightarrow> error + int" where
  "getUint32 h b vo pos =
     (if length (h ! b) < vo \<or> length (h ! b) - vo < pos + 4 then Inl RangeError
      else Inr (from_be32 (take 4 (drop (vo + pos) (h ! b)))))"

text \<open>
  \<open>a.slice(start)\<close> on a \<open>Uint8Array\<close>: a copy of the bytes from \<open>start\<close> on, in a new
  ArrayBuffer.
\<close>

definition ta_slice :: "heap \<Rightarrow> TypedArray \<Rightarrow> nat \<Rightarrow> heap \<times> TypedArray" where
  "ta_slice h a start =
     (let bs = drop start (ta_bytes h a)
      in (h @ [bs],
          \<lparr>ta_buffer = length h, byteOffset = 0, byteLength = length bs,
           instanceofBuffer = False\<rparr>))"

text \<open>
  \<open>AudioChunkStreamEncoder.write\<close>: a new array of \<open>Uint32Array.BYTES_PER_ELEMENT +
  d.chunk.byteLength\<close> bytes, the index written at its start, the chunk copied behind
  it; the array is written downstream.
\<close>

definition encoder_write ::
  "heap \<Rightarrow> TypedArray AudioChunkStreamOutput \<Rightarrow> error + (heap \<times> TypedArray list)" where
  "encoder_write h d =
     (case new_Uint8Array h (4 + byteLength (out_chunk d)) of
        (h1, encodedChunk) \<Rightarrow>
          (case setUint32 h1 (ta_buffer encodedChunk) (byteOffset encodedChunk) 0 (out_i d) of
             Inl e \<Rightarrow> Inl e
           | Inr h2 \<Rightarrow>
               (case ta_set h2 encodedChunk (ta_bytes h2 (out_chunk d)) 4 of
                  Inl e \<Rightarrow> Inl e
                | Inr h3 \<Rightarrow> Inr (h3, [encodedChunk]))))"

text \<open>
  \<open>AudioChunkStreamDecoder.write\<close>. A \<open>Buffer\<close> is replaced by \<open>new Uint8Array(d.buffer)\<close>,
  a view on the whole of its ArrayBuffer; the index is read first, then \<open>input.slice(4)\<close>
  copies the payload, and the frame is written downstream.
\<close>

definition decoder_write ::
  "heap \<Rightarrow> TypedArray \<Rightarrow> error + (heap \<times> TypedArray AudioChunkStreamOutput list)" where
  "decoder_write h d =
     (let input =
        (if instanceofBuffer d
         then \<lparr>ta_buffer = ta_buffer d, byteOffset = 0,
               byteLength = length (h ! ta_buffer d), instanceofBuffer = False\<rparr>
         else d)
      in case getUint32 h (ta_buffer input) (byteOffset input) 0 of
           Inl e \<Rightarrow> Inl e
         | Inr n \<Rightarrow>
             (case ta_slice h input 4 of
                (h1, c) \<Rightarrow> Inr (h1, [\<lparr>out_i = n, out_chunk = c\<rparr>])))"

text \<open>
  Scenario S4: the frame \<open>(0xDEADBEEF, [1, 2, 3])\<close>, its payload a \<open>Buffer\<close> of three bytes.
\<close>

definition S4_heap :: heap where "S4_heap = [[1, 2, 3]]"
definition S4_frame :: "TypedArray AudioChunkStreamOutput" where
  "S4_frame = \<lparr>out_i = 0xDEADBEEF,
     out_chunk = \<lparr>ta_buffer = 0, byteOffset = 0, byteLength = 3, instanceofBuffer = True\<rparr>\<rparr>"

text \<open>A record of three bytes that fills its own ArrayBuffer.\<close>

definition short_heap :: heap where "short_heap = [[1, 2, 3]]"
definition short_record :: TypedArray where
  "short_record = \<lparr>ta_buffer = 0, byteOffset = 0, byteLength = 3, instanceofBuffer = False\<rparr>"

text \<open>
  A record of three bytes (1, 2, 3) inside a larger ArrayBuffer, as a view on a receive
  buffer is, and the same three bytes as a \<open>Buffer\<close>.
\<close>

definition pool_heap :: heap where "pool_heap = [[9, 9, 1, 2, 3, 7, 7]]"
definition pool_record :: TypedArray where
  "pool_record = \<lparr>ta_buffer = 0, byteOffset = 2, byteLength = 3, instanceofBuffer = False\<rparr>"
definition pool_Buffer :: TypedArray where
  "pool_Buffer = \<lparr>ta_buffer = 0, byteOffset = 2, byteLength = 3, instanceofBuffer = True\<rparr>"

section \<open>AudioChunkStreamResampler\<close>

text \<open>
  \<open>target.set(source, offset)\<close> on a \<open>Uint8Array\<close> given by its bytes: a \<open>RangeError\<close> if
  the source does not fit behind the offset.
\<close>

definition u8_set :: "byte list \<Rightarrow> byte list \<Rightarrow> nat \<Rightarrow> error + byte list" where
  "u8_set target src off =
     (if length target < off + length src then Inl RangeError
      else Inr (write_bytes target off src))"

text \<open>
  \<open>a.subarray(begin, end)\<close>: a view on the same bytes. Both positions are clamped to the
  array, a negative one counting from its end. The result is the view's offset in \<open>a\<close>
  and the bytes it shows.
\<close>

definition clamp_index :: "int \<Rightarrow> nat \<Rightarrow> nat" where
  "clamp_index k n = (if k < 0 then nat (max (int n + k) 0) else min (nat k) n)"

definition subarray :: "byte list \<Rightarrow> int \<Rightarrow> int \<Rightarrow> nat \<times> byte list" where
  "subarray a b e =
     (let b' = clamp_index b (length a); e' = clamp_index e (length a)
      in (b', take (e' - b') (drop b' a)))"

text \<open>
  Modelled from the spec: \<open>rollover\<close> is imported from \<open>../misc\<close>, which is not among the
  sources. The specification gives the read offset as \<open>(write_offset - buffered_bytes) mod
  capacity\<close>; \<open>rollover v lo hi\<close> wraps \<open>v\<close> into the range from \<open>lo\<close> (included) to \<open>hi\<close>
  (excluded).
\<close>

definition rollover :: "int \<Rightarrow> int \<Rightarrow> int \<Rightarrow> int" where
  "rollover v lo hi = lo + (v - lo) mod (hi - lo)"

text \<open>
  An emitted frame: its index and the view \<open>alignementBuffer.subarray(offset, offset +
  outputChunkTargetLength)\<close>, as the offset of the view and the bytes it shows when emitted.
\<close>

type_synonym resampled = "(nat \<times> byte list) AudioChunkStreamOutput"

text \<open>
  The fields of \<open>AudioChunkStreamResampler\<close> that \<open>write\<close> reads and writes.
\<close>

record AudioChunkStreamResampler =
  alignementBuffer :: "byte list"
  bufferOffset :: nat
  bufferSize :: nat
  chunkIndexToEmit :: "int list"
  outputChunkTargetLength :: nat

text \<open>
  The constructor. \<open>OPUS_ENCODER_CHUNK_SAMPLES_COUNT\<close> and \<open>MAX_LATENCY\<close> come from
  \<open>../constants\<close>, which is not among the sources: the former is the parameter
  \<open>samples_count\<close>, and \<open>align_len\<close> is the value of \<open>MAX_LATENCY * (outRate / 1000)\<close>, the
  length of the alignment buffer. \<open>Float32Array.BYTES_PER_ELEMENT\<close> is 4. The \<open>assert\<close> (also
  from \<open>../misc\<close>) raises unless the length is a multiple of the target length; in
  JavaScript \<open>x % 0\<close> is \<open>NaN\<close>, so a target length of 0 fails it too.
\<close>

definition new_AudioChunkStreamResampler ::
  "nat \<Rightarrow> nat \<Rightarrow> nat \<Rightarrow> error + AudioChunkStreamResampler" where
  "new_AudioChunkStreamResampler channels samples_count align_len =
     (let target = samples_count * channels * 4
      in if target \<noteq> 0 \<and> align_len mod target = 0
         then Inr \<lparr>alignementBuffer = replicate align_len 0, bufferOffset = 0, bufferSize = 0,
                   chunkIndexToEmit = [], outputChunkTargetLength = target\<rparr>
         else Inl AssertionError)"

text \<open>
  What one call of \<open>write\<close> sees: the index \<open>d.i\<close>, whether \<open>this.resampler.soxrModule\<close>
  is set (the resampler is initialised), and the bytes that the external resampler's
  \<open>processChunk(d.chunk, this.resampledBuffer)\<close> returns for this chunk.
\<close>

record resampler_input =
  in_i :: int
  soxrModule :: bool
  processChunk :: "byte list"

text \<open>
  Copying the resampled bytes into the alignment buffer at \<open>bufferOffset\<close>, in two passes
  when they run over its end.
\<close>

definition resampler_store ::
  "AudioChunkStreamResampler \<Rightarrow> byte list \<Rightarrow> error + AudioChunkStreamResampler" where
  "resampler_store st outputChunk =
     (if length (alignementBuffer st) < bufferOffset st + length outputChunk then
        (let overflow = int (bufferOffset st) + int (length outputChunk)
                          - int (length (alignementBuffer st))
         in case u8_set (alignementBuffer st)
                   (snd (subarray outputChunk 0 (int (length outputChunk) - overflow)))
                   (bufferOffset st) of
              Inl e \<Rightarrow> Inl e
            | Inr b1 \<Rightarrow>
                (case u8_set b1
                        (snd (subarray outputChunk (int (length outputChunk) - overflow)
                                (int (length outputChunk)))) 0 of
                   Inl e \<Rightarrow> Inl e
                 | Inr b2 \<Rightarrow> Inr (st\<lparr>alignementBuffer := b2\<rparr>)))
      else
        (case u8_set (alignementBuffer st) outputChunk (bufferOffset st) of
           Inl e \<Rightarrow> Inl e
         | Inr b1 \<Rightarrow> Inr (st\<lparr>alignementBuffer := b1\<rparr>)))"

text \<open>
  The loop at the end of \<open>write\<close>: while a whole frame is buffered and an index is
  pending, take the oldest index and emit the frame at the read offset. An exception of
  the downstream \<open>super.write\<close> is caught and logged, so the loop always goes on.
\<close>

function resampler_emit ::
  "AudioChunkStreamResampler \<Rightarrow> AudioChunkStreamResampler \<times> resampled list" where
  "resampler_emit st =
     (if outputChunkTargetLength st \<le> bufferSize st \<and> chunkIndexToEmit st \<noteq> [] then
        (let chunkIndex = hd (chunkIndexToEmit st);
             st1 = st\<lparr>chunkIndexToEmit := tl (chunkIndexToEmit st)\<rparr>;
             offset = rollover (int (bufferOffset st1) - int (bufferSize st1)) 0
                        (int (length (alignementBuffer st1)));
             c = \<lparr>out_i = chunkIndex,
                  out_chunk = subarray (alignementBuffer st1) offset
                                (offset + int (outputChunkTargetLength st1))\<rparr>;
             st2 = st1\<lparr>bufferSize := bufferSize st1 - outputChunkTargetLength st1\<rparr>
         in case resampler_emit st2 of (st3, out) \<Rightarrow> (st3, c # out))
      else (st, []))"
  by pat_completeness auto
termination
  by (relation "measure (\<lambda>st. length (chunkIndexToEmit st))") auto

declare resampler_emit.simps [simp del]

text \<open>
  \<open>AudioChunkStreamResampler.write\<close>. \<open>Inl\<close> is an exception leaving \<open>write\<close>.
\<close>

definition resampler_write ::
  "AudioChunkStreamResampler \<Rightarrow> resampler_input \<Rightarrow>
   error + (AudioChunkStreamResampler \<times> resampled list)" where
  "resampler_write st d =
     (if \<not> soxrModule d then Inr (st, [])
      else
        (let st1 = st\<lparr>chunkIndexToEmit := chunkIndexToEmit st @ [in_i d]\<rparr>;
             outputChunk = processChunk d
         in if length outputChunk = 0 then Inr (st1, [])
            else
              (case resampler_store st1 outputChunk of
                 Inl e \<Rightarrow> Inl e
               | Inr st2 \<Rightarrow>
                   Inr (resampler_emit
                     (st2\<lparr>bufferSize := bufferSize st2 + length outputChunk,
                          bufferOffset := (bufferOffset st2 + length outputChunk)
                                            mod length (alignementBuffer st2)\<rparr>)))))"

text \<open>
  A run: one \<open>write\<close> per input, up to the first exception. The result is the state
  (the one before the failing call, if any), the frames emitted and the exception.
\<close>

fun resampler_writes ::
  "AudioChunkStreamResampler \<Rightarrow> resampler_input list \<Rightarrow>
   AudioChunkStreamResampler \<times> resampled list \<times> error option" where
  "resampler_writes st [] = (st, [], None)"
| "resampler_writes st (d # ds) =
     (case resampler_write st d of
        Inl e \<Rightarrow> (st, [], Some e)
      | Inr (st1, o1) \<Rightarrow>
          (case resampler_writes st1 ds of (st2, o2, e) \<Rightarrow> (st2, o1 @ o2, e)))"

text \<open>
  Test data: \<open>n\<close> bytes counting up from \<open>a\<close>, and an input with index \<open>k\<close> for which the
  resampler returns these bytes.
\<close>

definition bytes_from :: "nat \<Rightarrow> nat \<Rightarrow> byte list" where
  "bytes_from a n = map (\<lambda>k. word_of_nat k) [a..<a + n]"

definition rs_in :: "int \<Rightarrow> nat \<Rightarrow> nat \<Rightarrow> resampler_input" where
  "rs_in k a n = \<lparr>in_i = k, soxrModule = True, processChunk = bytes_from a n\<rparr>"

text \<open>
  The invariant of the resampler: the target length is positive and divides the length of
  the alignment buffer, and the distance between write offset and buffered size is a
  multiple of the target length.
\<close>

definition rs_inv :: "AudioChunkStreamResampler \<Rightarrow> bool" where
  "rs_inv st \<longleftrightarrow>
     0 < outputChunkTargetLength st \<and>
     outputChunkTargetLength st dvd length (alignementBuffer st) \<and>
     bufferOffset st \<le> length (alignementBuffer st) \<and>
     int (outputChunkTargetLength st) dvd int (bufferOffset st) - int (bufferSize st)"

text \<open>
  A run that wraps around a buffer of three frames, and scenario S8: 100 chunks through a
  48000 to 48000 configuration (two channels, frames of 960 samples), here with a resampler
  that returns one frame of output for each chunk.
\<close>

definition wrap_resampler :: AudioChunkStreamResampler where
  "wrap_resampler = \<lparr>alignementBuffer = replicate 12 0, bufferOffset = 0, bufferSize = 0,
     chunkIndexToEmit = [], outputChunkTargetLength = 4\<rparr>"

definition wrap_input :: "resampler_input list" where
  "wrap_input = [rs_in 10 1 3, rs_in 11 4 6, rs_in 12 10 0, rs_in 13 10 7, rs_in 14 17 4,
     rs_in 15 21 4]"




section \<open>AudioChunkStream\<close>

text \<open>
  ``If we try reading 5 times and there is still no data available, stop the stream and try
  again on the readable event.''
\<close>

definition MIN_LOOP_ITERATION_WITHOUT_DATA_TO_STOP_READING :: nat where
  "MIN_LOOP_ITERATION_WITHOUT_DATA_TO_STOP_READING = 5"

text \<open>
  JavaScript numbers are IEEE 754 doubles. A finite double is modelled as the real number it
  stands for, and an arithmetic operation of the code as the exact operation on the reals
  followed by \<open>double\<close>, the rounding to the nearest double, a tie going to the even
  significand: \<open>ulp\<close> is the distance between the doubles around \<open>x\<close>, which have a
  significand of 53 bits from \<open>2^-1022\<close> on and are the multiples of \<open>2^-1074\<close> below.
  Infinities and \<open>NaN\<close> have no counterpart: magnitudes stay below \<open>2^1024\<close> and no duration
  is 0. \<open>Math.floor\<close> is exact.
\<close>

definition round_half_even :: "real \<Rightarrow> int" where
  "round_half_even x =
     (let f = \<lfloor>x\<rfloor>
      in if x - real_of_int f < 1 / 2 then f
         else if 1 / 2 < x - real_of_int f then f + 1
         else if even f then f else f + 1)"

definition double :: "real \<Rightarrow> real" where
  "double x =
     (let e = max \<lfloor>log 2 \<bar>x\<bar>\<rfloor> (- 1022);
          ulp = 2 powr (real_of_int e - 52)
      in ulp * real_of_int (round_half_even (x / ulp)))"

text \<open>
  The fields of \<open>AudioChunkStream\<close>. Times are JavaScript numbers in milliseconds;
  \<open>readInterval\<close> records whether the interval timer is set; \<open>lastEmittedChunkIndex\<close> is
  \<open>-1\<close> when no index is known.
\<close>

record AudioChunkStream =
  startTime :: real
  chunkDuration :: real
  chunkSize :: nat
  lastEmittedChunkIndex :: int
  loopIterationWithoutData :: nat
  readInterval :: bool

text \<open>
  The constructor. Registering \<open>startReadLoop\<close> on the source's \<open>readable\<close> event is the
  event \<open>Readable\<close> below.
\<close>

definition new_AudioChunkStream :: "real \<Rightarrow> real \<Rightarrow> nat \<Rightarrow> AudioChunkStream" where
  "new_AudioChunkStream start duration csize =
     \<lparr>startTime = start, chunkDuration = duration, chunkSize = csize,
      lastEmittedChunkIndex = - 1, loopIterationWithoutData = 0, readInterval = False\<rparr>"

text \<open>
  The source stream and the clock are outside the class. One pass of the loop in
  \<open>_pushNecessaryChunks\<close> sees: the clock when the index is computed from the time
  (\<open>this.now()\<close> in the first statement, read only if no index is known), the clock when the
  latency is computed (\<open>this.now()\<close> in the second statement), and what
  \<open>sourceStream.read(chunkSize)\<close> returns if it is called, \<open>None\<close> for \<open>null\<close>. Clock readings
  are the values of \<open>now()\<close>, before \<open>startTime\<close> is subtracted.
\<close>

record observation =
  clock_index :: real
  clock_latency :: real
  read_result :: "byte list option"

text \<open>
  The trace of a run, in order: a chunk written downstream (with the two clock readings of
  the pass that wrote it), a read that returned \<open>null\<close>, a call of \<open>stopReadLoop\<close>, a
  \<open>readable\<close> event received, an exception thrown.
\<close>

datatype action =
    Emit real real frame
  | NoData
  | Stopped
  | Signal
  | Raised error

datatype outcome = Continue | Break | Throw error

text \<open>
  \<open>stopReadLoop\<close>: reset the idle counter, forget the last index, clear the timer.
\<close>

definition stopReadLoop :: "AudioChunkStream \<Rightarrow> AudioChunkStream" where
  "stopReadLoop st =
     st\<lparr>loopIterationWithoutData := 0, lastEmittedChunkIndex := - 1, readInterval := False\<rparr>"

text \<open>
  The first two statements of the loop body, \<open>this.now()\<close> being \<open>now() - this.startTime\<close>:
  \<open>Math.floor(this.now() / this.chunkDuration)\<close> or \<open>this.lastEmittedChunkIndex + 1\<close>, and
  \<open>this.now() - (currentChunkIndex * this.chunkDuration)\<close>, every subtraction, division and
  product rounded to a double. An index is an integer; adding 1 to it is exact as long as it
  stays below \<open>2^53\<close>, as indices are taken to.
\<close>

definition currentChunkIndex :: "AudioChunkStream \<Rightarrow> observation \<Rightarrow> int" where
  "currentChunkIndex st ob =
     (if lastEmittedChunkIndex st = - 1
      then \<lfloor>double (double (clock_index ob - startTime st) / chunkDuration st)\<rfloor>
      else lastEmittedChunkIndex st + 1)"

definition currentChunkLatency :: "AudioChunkStream \<Rightarrow> observation \<Rightarrow> real" where
  "currentChunkLatency st ob =
     double (double (clock_latency ob - startTime st)
               - double (real_of_int (currentChunkIndex st ob) * chunkDuration st))"

text \<open>
  An incomplete chunk is completed with zeros: \<open>Buffer.alloc(chunkSize)\<close> and
  \<open>chunk.set(incompleteChunk)\<close>, which throws if the chunk read is longer than \<open>chunkSize\<close>.
\<close>

definition complete_chunk :: "nat \<Rightarrow> byte list \<Rightarrow> error + byte list" where
  "complete_chunk n chunk =
     (if length chunk \<noteq> n then u8_set (replicate n 0) chunk 0 else Inr chunk)"

text \<open>
  One pass of the loop body: the new state, what it adds to the trace, and whether the loop
  goes on, is left by \<open>break\<close>, or is left by an exception.
\<close>

definition iteration ::
  "AudioChunkStream \<Rightarrow> observation \<Rightarrow> AudioChunkStream \<times> action list \<times> outcome" where
  "iteration st ob =
     (if currentChunkLatency st ob < 0 then (st, [], Break)
      else
        (case read_result ob of
           None \<Rightarrow>
             (let st1 = st\<lparr>loopIterationWithoutData := loopIterationWithoutData st + 1\<rparr>
              in if MIN_LOOP_ITERATION_WITHOUT_DATA_TO_STOP_READING
                      \<le> loopIterationWithoutData st1
                 then (stopReadLoop st1, [NoData, Stopped], Break)
                 else (st1, [NoData], Break))
         | Some chunk \<Rightarrow>
             (let st1 = st\<lparr>loopIterationWithoutData := 0\<rparr>
              in case complete_chunk (chunkSize st1) chunk of
                   Inl e \<Rightarrow> (st1, [Raised e], Throw e)
                 | Inr chunk' \<Rightarrow>
                     (st1\<lparr>lastEmittedChunkIndex := currentChunkIndex st ob\<rparr>,
                      [Emit (clock_index ob) (clock_latency ob)
                         \<lparr>out_i = currentChunkIndex st ob, out_chunk = chunk'\<rparr>],
                      Continue))))"

text \<open>
  \<open>_pushNecessaryChunks\<close>: the loop \<open>while (true)\<close>, one observation for each pass. The call
  returns when a pass breaks; \<open>Unfinished\<close> says that the observations given ran out while the
  loop was still going on.
\<close>

datatype completion = Returned | Threw error | Unfinished

fun pushNecessaryChunks ::
  "AudioChunkStream \<Rightarrow> observation list \<Rightarrow> AudioChunkStream \<times> action list \<times> completion"
where
  "pushNecessaryChunks st [] = (st, [], Unfinished)"
| "pushNecessaryChunks st (ob # obs) =
     (case iteration st ob of
        (st1, a1, Continue) \<Rightarrow>
          (case pushNecessaryChunks st1 obs of (st2, a2, r) \<Rightarrow> (st2, a1 @ a2, r))
      | (st1, a1, Break) \<Rightarrow> (st1, a1, Returned)
      | (st1, a1, Throw e) \<Rightarrow> (st1, a1, Threw e))"

text \<open>
  \<open>startReadLoop\<close>, the handler of the source's \<open>readable\<close> event.
\<close>

definition startReadLoop ::
  "AudioChunkStream \<Rightarrow> observation list \<Rightarrow> AudioChunkStream \<times> action list \<times> completion"
where
  "startReadLoop st obs =
     (let st0 = st\<lparr>loopIterationWithoutData := 0\<rparr>
      in if readInterval st0 then (st0, [], Returned)
         else
           (case pushNecessaryChunks st0 obs of
              (st1, a1, Returned) \<Rightarrow> (st1\<lparr>readInterval := True\<rparr>, a1, Returned)
            | (st1, a1, r) \<Rightarrow> (st1, a1, r)))"

text \<open>
  The two events that run code of the class, each with the observations its handler makes:
  \<open>readable\<close> from the source, and a tick of the interval timer, which fires only while
  the timer is set. A run handles events in order and ends at the first handler that does
  not return.
\<close>

datatype event = Readable "observation list" | Tick "observation list"

fun handle_event ::
  "AudioChunkStream \<Rightarrow> event \<Rightarrow> AudioChunkStream \<times> action list \<times> completion" where
  "handle_event st (Readable obs) =
     (case startReadLoop st obs of (st1, a1, r) \<Rightarrow> (st1, Signal # a1, r))"
| "handle_event st (Tick obs) =
     (if readInterval st then pushNecessaryChunks st obs else (st, [], Returned))"

fun chunker_run ::
  "AudioChunkStream \<Rightarrow> event list \<Rightarrow> AudioChunkStream \<times> action list \<times> completion" where
  "chunker_run st [] = (st, [], Returned)"
| "chunker_run st (ev # evs) =
     (case handle_event st ev of
        (st1, a1, Returned) \<Rightarrow>
          (case chunker_run st1 evs of (st2, a2, r) \<Rightarrow> (st2, a1 @ a2, r))
      | (st1, a1, r) \<Rightarrow> (st1, a1, r))"

text \<open>
  The chunks written downstream in a trace, the clock readings of a list of observations,
  and the observations of an event.
\<close>

fun emitted :: "action list \<Rightarrow> frame list" where
  "emitted [] = []"
| "emitted (Emit t1 t2 c # as) = c # emitted as"
| "emitted (a # as) = emitted as"



text \<open>
  Node's \<open>readable.read(size)\<close> for a stream given by its buffered bytes and whether it has
  ended: \<open>null\<close> for a size of 0, which consumes nothing; \<open>size\<close> bytes if that many are
  buffered; all that is left if the stream has ended and something is left; \<open>null\<close>
  otherwise.
\<close>

definition stream_read :: "nat \<Rightarrow> byte list \<times> bool \<Rightarrow> byte list option \<times> (byte list \<times> bool)" where
  "stream_read n src =
     (case src of
        (buf, ended) \<Rightarrow>
          if n = 0 then (None, (buf, ended))
          else if n \<le> length buf then (Some (take n buf), (drop n buf, ended))
          else if ended \<and> buf \<noteq> [] then (Some buf, ([], ended))
          else (None, (buf, ended)))"

text \<open>
  An observation made at a single instant \<open>t\<close>.
\<close>

definition observed :: "real \<Rightarrow> byte list option \<Rightarrow> observation" where
  "observed t r = \<lparr>clock_index = t, clock_latency = t, read_result = r\<rparr>"


text \<open>
  Scenario S3: the source holds \<open>bs\<close> and has ended. A \<open>readable\<close> event at the start time
  and one tick a chunk duration later; the reads return what \<open>stream_read\<close> gives, in order
  (in the first handler the second chunk is not yet due, so nothing is read for it).
\<close>

definition S3_events :: "nat \<Rightarrow> byte list \<Rightarrow> real \<Rightarrow> real \<Rightarrow> event list" where
  "S3_events n bs start dur =
     (case stream_read n (bs, True) of
        (r1, s1) \<Rightarrow>
          (case stream_read n s1 of
             (r2, s2) \<Rightarrow>
               (case stream_read n s2 of
                  (r3, s3) \<Rightarrow>
                    [Readable [observed start r1, observed start r2],
                     Tick [observed (start + dur) r2, observed (start + dur) r3]])))"

text \<open>
  The number of reads without data at the end of a trace.
\<close>

definition idle_run :: "action list \<Rightarrow> nat" where
  "idle_run acts = length (takeWhile (\<lambda>a. a = NoData) (rev acts))"

text \<open>
  The value of \<open>lastEmittedChunkIndex\<close> after a trace, and the law of the indices along a
  trace: each index emitted is the one before plus 1, or is computed from the clock if
  none is known; and its time has come. The law is stated for an arithmetic that rounds
  with \<open>rnd\<close>: the doubles of the code for \<open>double\<close>, exact arithmetic for the identity.
\<close>

fun last_after :: "int \<Rightarrow> action list \<Rightarrow> int" where
  "last_after l [] = l"
| "last_after l (Emit t1 t2 c # as) = last_after (out_i c) as"
| "last_after l (Stopped # as) = last_after (- 1) as"
| "last_after l (a # as) = last_after l as"



text \<open>
  A run with a timer period of 20 ms and ticks on time: the source has nothing at the tick
  at 1040, one chunk at 1060, nothing for the next four ticks, and data again at 1141.
\<close>

definition stall_chunk :: "byte list" where
  "stall_chunk = [1, 2, 3, 4]"

definition stall_events :: "event list" where
  "stall_events =
     [Readable [observed 1000 (Some stall_chunk), observed 1000 None],
      Tick [observed 1020 (Some stall_chunk), observed 1020 None],
      Tick [observed 1040 None],
      Readable [],
      Tick [observed 1060 (Some stall_chunk), observed 1060 None],
      Tick [observed 1080 None], Tick [observed 1100 None], Tick [observed 1120 None], Tick [observed 1140 None],
      Readable [observed 1141 (Some stall_chunk), observed 1141 None]]"





text \<open>A call of \<open>stopReadLoop\<close> in a trace comes right after five reads without data.\<close>

definition stops_after_five :: "action list \<Rightarrow> bool" where
  "stops_after_five acts \<longleftrightarrow>
     (\<forall>pre post. acts = pre @ Stopped # post \<longrightarrow> (\<exists>pre'. pre = pre' @ replicate 5 NoData))"

text \<open>
  For the order of the indices: the least index that may come next after a trace, the
  traces whose indices go up from a given least index, and the invariant that ties the state
  to the clock readings \<open>R\<close> still to come, for times that are whole numbers of
  milliseconds small enough for the arithmetic on them to be exact.
\<close>

fun min_after :: "int \<Rightarrow> action list \<Rightarrow> int" where
  "min_after m [] = m"
| "min_after m (Emit t1 t2 c # as) = min_after (out_i c + 1) as"
| "min_after m (a # as) = min_after m as"

fun rising :: "int \<Rightarrow> action list \<Rightarrow> bool" where
  "rising m [] = True"
| "rising m (Emit t1 t2 c # as) = (m \<le> out_i c \<and> rising (out_i c + 1) as)"
| "rising m (a # as) = rising m as"


text \<open>The trace of a run from a freshly constructed chunker.\<close>

definition chunker_trace :: "real \<Rightarrow> real \<Rightarrow> nat \<Rightarrow> event list \<Rightarrow> action list" where
  "chunker_trace start dur n evs = fst (snd (chunker_run (new_AudioChunkStream start dur n) evs))"

definition stall_trace :: "action list" where
  "stall_trace =
     [Signal, Emit 1000 1000 \<lparr>out_i = 0, out_chunk = stall_chunk\<rparr>,
      Emit 1020 1020 \<lparr>out_i = 1, out_chunk = stall_chunk\<rparr>, NoData, Signal,
      Emit 1060 1060 \<lparr>out_i = 2, out_chunk = stall_chunk\<rparr>,
      NoData, NoData, NoData, NoData, NoData, Stopped, Signal,
      Emit 1141 1141 \<lparr>out_i = 7, out_chunk = stall_chunk\<rparr>]"

section \<open>Properties of AudioChunkStreamOrderer\<close>

subsection \<open>The drain loop\<close>

lemma emitNext_Nil: "buffer st = [] \<Longrightarrow> emitNextChunksInBuffer st = (st, [])"
  by (simp add: emitNextChunksInBuffer.simps [of st])

lemma emitNext_miss:
  "buffer st = c # cs \<Longrightarrow> out_i c \<noteq> nextEmittableChunkIndex st \<Longrightarrow>
   emitNextChunksInBuffer st = (st, [])"
  by (simp add: emitNextChunksInBuffer.simps [of st])

lemma emitNext_hit:
  "buffer st = c # cs \<Longrightarrow> out_i c = nextEmittableChunkIndex st \<Longrightarrow>
   emitNextChunksInBuffer st =
     (fst (emitNextChunksInBuffer (st\<lparr>nextEmittableChunkIndex := out_i c + 1, buffer := cs\<rparr>)),
      c # snd (emitNextChunksInBuffer (st\<lparr>nextEmittableChunkIndex := out_i c + 1, buffer := cs\<rparr>)))"
  by (simp add: emitNextChunksInBuffer.simps [of st] emitChunk_def split: prod.splits)

lemma emitNext_induct [case_names Nil miss hit]:
  fixes P :: "AudioChunkStreamOrderer \<Rightarrow> bool"
  assumes "\<And>st. buffer st = [] \<Longrightarrow> P st"
    and "\<And>st c cs. buffer st = c # cs \<Longrightarrow> out_i c \<noteq> nextEmittableChunkIndex st \<Longrightarrow> P st"
    and "\<And>st c cs. buffer st = c # cs \<Longrightarrow> out_i c = nextEmittableChunkIndex st \<Longrightarrow>
           P (st\<lparr>nextEmittableChunkIndex := out_i c + 1, buffer := cs\<rparr>) \<Longrightarrow> P st"
  shows "P st"
proof (induction st rule: emitNextChunksInBuffer.induct)
  case (1 st)
  show ?case
  proof (cases "buffer st")
    case Nil
    then show ?thesis by (rule assms(1))
  next
    case (Cons c cs)
    show ?thesis
    proof (cases "out_i c = nextEmittableChunkIndex st")
      case True
      have "P (fst (emitChunk c st)\<lparr>buffer := cs\<rparr>)"
        by (rule "1.IH" [OF Cons True, of "fst (emitChunk c st)" "snd (emitChunk c st)"]) simp
      then have "P (st\<lparr>nextEmittableChunkIndex := out_i c + 1, buffer := cs\<rparr>)"
        by (simp add: emitChunk_def)
      with Cons True show ?thesis by (rule assms(3))
    next
      case False
      with Cons show ?thesis by (rule assms(2))
    qed
  qed
qed

lemma emitNext_max [simp]:
  "maxUnorderedChunks (fst (emitNextChunksInBuffer st)) = maxUnorderedChunks st"
  by (induction st rule: emitNext_induct) (simp_all add: emitNext_Nil emitNext_miss emitNext_hit)

lemma emitNext_length:
  "length (buffer (fst (emitNextChunksInBuffer st))) \<le> length (buffer st)"
  by (induction st rule: emitNext_induct) (simp_all add: emitNext_Nil emitNext_miss emitNext_hit)

lemma emitNext_length_head:
  assumes "buffer st \<noteq> []" "out_i (hd (buffer st)) = nextEmittableChunkIndex st"
  shows "length (buffer (fst (emitNextChunksInBuffer st))) < length (buffer st)"
proof -
  from assms obtain c cs where b: "buffer st = c # cs" by (cases "buffer st") auto
  let ?st1 = "st\<lparr>nextEmittableChunkIndex := out_i c + 1, buffer := cs\<rparr>"
  have "length (buffer (fst (emitNextChunksInBuffer ?st1))) \<le> length (buffer ?st1)"
    by (rule emitNext_length)
  with b assms show ?thesis
    by (simp add: emitNext_hit)
qed

lemma orderer_insert_length:
  assumes "orderer_insert st d = Some (st2, o2)"
  shows "length (buffer st2) \<le> Suc (length (buffer st)) \<and> maxUnorderedChunks st2 = maxUnorderedChunks st"
proof -
  let ?st0 = "orderer_anchor st d"
  have a: "buffer ?st0 = buffer st" "maxUnorderedChunks ?st0 = maxUnorderedChunks st"
    by (simp_all add: orderer_anchor_def)
  show ?thesis
  proof (cases "nextEmittableChunkIndex ?st0 = out_i d")
    case True
    let ?s = "?st0\<lparr>nextEmittableChunkIndex := out_i d + 1, buffer := sort_key out_i (buffer ?st0)\<rparr>"
    from assms True have "st2 = fst (emitNextChunksInBuffer ?s)"
      by (auto simp: orderer_insert_def Let_def emitChunk_def split: prod.splits if_splits)
    moreover have "length (buffer (fst (emitNextChunksInBuffer ?s))) \<le> length (buffer ?s)"
      by (rule emitNext_length)
    ultimately show ?thesis using a by simp
  next
    case False
    let ?s = "?st0\<lparr>buffer := sort_key out_i (buffer ?st0 @ [d])\<rparr>"
    from assms False have "st2 = fst (emitNextChunksInBuffer ?s)"
      by (auto simp: orderer_insert_def Let_def emitChunk_def split: prod.splits if_splits)
    moreover have "length (buffer (fst (emitNextChunksInBuffer ?s))) \<le> length (buffer ?s)"
      by (rule emitNext_length)
    ultimately show ?thesis using a by simp
  qed
qed

lemma orderer_overflow_fst:
  "fst (orderer_overflow st) =
     (if buffer st \<noteq> [] \<and> maxUnorderedChunks st \<le> length (buffer st)
      then fst (emitNextChunksInBuffer (st\<lparr>nextEmittableChunkIndex := out_i (hd (buffer st))\<rparr>))
      else st)"
  by (simp add: orderer_overflow_def emitChunk_def split: prod.splits)

lemma orderer_overflow_max [simp]:
  "maxUnorderedChunks (fst (orderer_overflow st)) = maxUnorderedChunks st"
  by (simp add: orderer_overflow_fst)

lemma orderer_overflow_length:
  "length (buffer (fst (orderer_overflow st))) \<le> length (buffer st) \<and>
   (buffer st \<noteq> [] \<and> maxUnorderedChunks st \<le> length (buffer st) \<longrightarrow>
      length (buffer (fst (orderer_overflow st))) < length (buffer st))"
proof (cases "buffer st \<noteq> [] \<and> maxUnorderedChunks st \<le> length (buffer st)")
  case False
  then show ?thesis by (auto simp: orderer_overflow_def)
next
  case True
  define st1 where "st1 = fst (if out_i (hd (buffer st)) - nextEmittableChunkIndex st = 1
               then emitChunk \<lparr>out_i = nextEmittableChunkIndex st, out_chunk = []\<rparr> st
               else (st, []))"
  have b: "buffer st1 = buffer st" by (simp add: st1_def emitChunk_def)
  let ?s = "st1\<lparr>nextEmittableChunkIndex := out_i (hd (buffer st1))\<rparr>"
  have "fst (orderer_overflow st) = fst (emitNextChunksInBuffer ?s)"
    using True by (simp add: orderer_overflow_def st1_def split: prod.splits)
  moreover have "length (buffer (fst (emitNextChunksInBuffer ?s))) < length (buffer ?s)"
    by (rule emitNext_length_head) (use True b in simp_all)
  ultimately show ?thesis using b by simp
qed

lemma orderer_write_bound:
  assumes "length (buffer st) \<le> maxUnorderedChunks st"
  shows "length (buffer (fst (orderer_write st d))) \<le> maxUnorderedChunks (fst (orderer_write st d)) \<and>
    maxUnorderedChunks (fst (orderer_write st d)) = maxUnorderedChunks st"
proof (cases "orderer_insert st d")
  case None
  with assms show ?thesis by (simp add: orderer_write_def orderer_anchor_def)
next
  case (Some r)
  obtain st2 o2 where r: "r = (st2, o2)" by (cases r)
  from Some r orderer_insert_length [of st d st2 o2]
  have l: "length (buffer st2) \<le> Suc (length (buffer st))" "maxUnorderedChunks st2 = maxUnorderedChunks st"
    by simp_all
  have w: "fst (orderer_write st d) = fst (orderer_overflow st2)"
    using Some r by (simp add: orderer_write_def split: prod.splits)
  from orderer_overflow_length [of st2] l assms
  have "length (buffer (fst (orderer_overflow st2))) \<le> maxUnorderedChunks st"
    by (cases "buffer st2 = []") auto
  with w l show ?thesis by simp
qed

lemma orderer_writes_Cons_fst:
  "fst (orderer_writes st (d # ds)) = fst (orderer_writes (fst (orderer_write st d)) ds)"
  by (simp split: prod.splits)

lemma orderer_writes_Cons_snd:
  "snd (orderer_writes st (d # ds)) =
     snd (orderer_write st d) @ snd (orderer_writes (fst (orderer_write st d)) ds)"
  by (simp split: prod.splits)

lemma orderer_writes_bound:
  "length (buffer st) \<le> maxUnorderedChunks st \<Longrightarrow>
   length (buffer (fst (orderer_writes st ds))) \<le> maxUnorderedChunks st \<and>
   maxUnorderedChunks (fst (orderer_writes st ds)) = maxUnorderedChunks st"
proof (induction ds arbitrary: st)
  case Nil
  then show ?case by simp
next
  case (Cons d ds)
  from orderer_write_bound [OF Cons.prems, of d] Cons.IH [of "fst (orderer_write st d)"]
  show ?case by (simp only: orderer_writes_Cons_fst) simp
qed

lemma emitNext_chars:
  "\<exists>k\<le>length (buffer st).
     (\<forall>j<k. out_i (buffer st ! j) = nextEmittableChunkIndex st + int j) \<and>
     (k < length (buffer st) \<longrightarrow> out_i (buffer st ! k) \<noteq> nextEmittableChunkIndex st + int k) \<and>
     snd (emitNextChunksInBuffer st) = take k (buffer st) \<and>
     buffer (fst (emitNextChunksInBuffer st)) = drop k (buffer st) \<and>
     nextEmittableChunkIndex (fst (emitNextChunksInBuffer st)) = nextEmittableChunkIndex st + int k"
proof (induction st rule: emitNext_induct)
  case (Nil st)
  then show ?case by (simp add: emitNext_Nil)
next
  case (miss st c cs)
  then show ?case by (intro exI [of _ 0]) (simp add: emitNext_miss)
next
  case (hit st c cs)
  let ?st' = "st\<lparr>nextEmittableChunkIndex := out_i c + 1, buffer := cs\<rparr>"
  from hit.IH obtain k where k: "k \<le> length cs"
    "\<forall>j<k. out_i (cs ! j) = out_i c + 1 + int j"
    "k < length cs \<longrightarrow> out_i (cs ! k) \<noteq> out_i c + 1 + int k"
    "snd (emitNextChunksInBuffer ?st') = take k cs"
    "buffer (fst (emitNextChunksInBuffer ?st')) = drop k cs"
    "nextEmittableChunkIndex (fst (emitNextChunksInBuffer ?st')) = out_i c + 1 + int k"
    by auto
  have "\<forall>j<Suc k. out_i ((c # cs) ! j) = out_i c + int j"
  proof (intro allI impI)
    fix j assume "j < Suc k"
    then show "out_i ((c # cs) ! j) = out_i c + int j"
      using k(2) by (cases j) auto
  qed
  with k hit(1,2) show ?case
    by (intro exI [of _ "Suc k"]) (simp add: emitNext_hit add.assoc)
qed

lemma orderer_overflow_chars:
  assumes ne: "buffer st1 \<noteq> []" and full: "maxUnorderedChunks st1 \<le> length (buffer st1)"
  shows "\<exists>k. 1 \<le> k \<and> k \<le> length (buffer st1) \<and>
     (\<forall>j<k. out_i (buffer st1 ! j) = out_i (hd (buffer st1)) + int j) \<and>
     (k < length (buffer st1) \<longrightarrow> out_i (buffer st1 ! k) \<noteq> out_i (hd (buffer st1)) + int k) \<and>
     snd (orderer_overflow st1) =
       (if out_i (hd (buffer st1)) - nextEmittableChunkIndex st1 = 1
        then [\<lparr>out_i = nextEmittableChunkIndex st1, out_chunk = []\<rparr>] else []) @
       take k (buffer st1) \<and>
     buffer (fst (orderer_overflow st1)) = drop k (buffer st1) \<and>
     nextEmittableChunkIndex (fst (orderer_overflow st1)) = out_i (hd (buffer st1)) + int k"
proof -
  define s where "s = st1\<lparr>nextEmittableChunkIndex := out_i (hd (buffer st1))\<rparr>"
  have ov: "orderer_overflow st1 =
      (fst (emitNextChunksInBuffer s),
       (if out_i (hd (buffer st1)) - nextEmittableChunkIndex st1 = 1
        then [\<lparr>out_i = nextEmittableChunkIndex st1, out_chunk = []\<rparr>] else []) @
       snd (emitNextChunksInBuffer s))"
    using ne full by (simp add: orderer_overflow_def emitChunk_def s_def split: prod.splits)
  have sb: "buffer s = buffer st1" "nextEmittableChunkIndex s = out_i (hd (buffer st1))"
    by (simp_all add: s_def)
  from emitNext_chars [of s] obtain k where k: "k \<le> length (buffer st1)"
    "\<forall>j<k. out_i (buffer st1 ! j) = out_i (hd (buffer st1)) + int j"
    "k < length (buffer st1) \<longrightarrow> out_i (buffer st1 ! k) \<noteq> out_i (hd (buffer st1)) + int k"
    "snd (emitNextChunksInBuffer s) = take k (buffer st1)"
    "buffer (fst (emitNextChunksInBuffer s)) = drop k (buffer st1)"
    "nextEmittableChunkIndex (fst (emitNextChunksInBuffer s)) = out_i (hd (buffer st1)) + int k"
    unfolding sb by blast
  have "k \<noteq> 0"
  proof
    assume "k = 0"
    with k(3) ne show False by (simp add: hd_conv_nth)
  qed
  with k ov show ?thesis by (intro exI [of _ k]) simp
qed

lemma S6_a: "snd (orderer_writes (new_AudioChunkStreamOrderer 10) (butlast S6_input)) = [frame_of 0]"
  unfolding S6_input_def by code_simp

lemma S6_b: "snd (orderer_writes (new_AudioChunkStreamOrderer 10) S6_input) =
      frame_of 0 # \<lparr>out_i = 1, out_chunk = []\<rparr> # map frame_of [2, 3, 4, 5, 6, 7, 8, 9, 10, 11]"
  unfolding S6_input_def by code_simp

lemma S7_a: "snd (orderer_writes (new_AudioChunkStreamOrderer 10) (butlast S7_input)) = [frame_of 0]"
  unfolding S7_input_def by code_simp

lemma S7_b: "snd (orderer_writes (new_AudioChunkStreamOrderer 10) S7_input) =
      map frame_of [0, 5, 6, 7, 8, 9, 10, 11, 12, 13, 14]"
  unfolding S7_input_def by code_simp

subsection \<open>Buffer bound\<close>

text \<open>
  Claim C9. After every \<open>write\<close> of the orderer, for every sequence of frames written to
  a freshly constructed orderer, the buffer holds at most \<open>maxUnorderedChunks\<close> frames.
\<close>

theorem orderer_buffer_bounded:
  "length (buffer (fst (orderer_writes (new_AudioChunkStreamOrderer m) ds))) \<le> m"
  using orderer_writes_bound [of "new_AudioChunkStreamOrderer m" ds]
  by (simp add: new_AudioChunkStreamOrderer_def)

subsection \<open>Overflow policy\<close>

text \<open>
  Claim C3. Whenever the buffer, after the received frame has been inserted (and the
  contiguous head drained), is not empty and holds at least \<open>maxUnorderedChunks\<close> frames,
  \<open>write\<close> (a) first emits the synthetic frame \<open>(next, empty)\<close> exactly if the smallest
  buffered index is \<open>next + 1\<close>, (b) restarts from the smallest buffered index and (c) emits
  the contiguous head of the buffer: the longest prefix \<open>take k\<close> whose indices count up
  from the head's. On the input S6 with \<open>maxUnorderedChunks = 10\<close> only frame 0 is out
  until frame 11 arrives, then \<open>(1, empty)\<close> and the frames 2 to 11 follow; on S7 the frames
  5 to 14 follow frame 0 with no synthetic frame.
\<close>

theorem orderer_overflow_policy:
  "(\<forall>st d st1 o1.
      orderer_insert st d = Some (st1, o1) \<and> buffer st1 \<noteq> [] \<and>
      maxUnorderedChunks st1 \<le> length (buffer st1) \<longrightarrow>
      (\<exists>k. 1 \<le> k \<and> k \<le> length (buffer st1) \<and>
         (\<forall>j<k. out_i (buffer st1 ! j) = out_i (hd (buffer st1)) + int j) \<and>
         (k < length (buffer st1) \<longrightarrow>
            out_i (buffer st1 ! k) \<noteq> out_i (hd (buffer st1)) + int k) \<and>
         snd (orderer_write st d) =
           o1 @
           (if out_i (hd (buffer st1)) - nextEmittableChunkIndex st1 = 1
            then [\<lparr>out_i = nextEmittableChunkIndex st1, out_chunk = []\<rparr>] else []) @
           take k (buffer st1) \<and>
         buffer (fst (orderer_write st d)) = drop k (buffer st1) \<and>
         nextEmittableChunkIndex (fst (orderer_write st d)) = out_i (hd (buffer st1)) + int k)) \<and>
   snd (orderer_writes (new_AudioChunkStreamOrderer 10) (butlast S6_input)) = [frame_of 0] \<and>
   snd (orderer_writes (new_AudioChunkStreamOrderer 10) S6_input) =
      frame_of 0 # \<lparr>out_i = 1, out_chunk = []\<rparr> # map frame_of [2, 3, 4, 5, 6, 7, 8, 9, 10, 11] \<and>
   snd (orderer_writes (new_AudioChunkStreamOrderer 10) (butlast S7_input)) = [frame_of 0] \<and>
   snd (orderer_writes (new_AudioChunkStreamOrderer 10) S7_input) =
      map frame_of [0, 5, 6, 7, 8, 9, 10, 11, 12, 13, 14]"
proof (intro conjI allI impI)
  fix st d st1 o1
  assume a: "orderer_insert st d = Some (st1, o1) \<and> buffer st1 \<noteq> [] \<and>
      maxUnorderedChunks st1 \<le> length (buffer st1)"
  then have w: "orderer_write st d = (fst (orderer_overflow st1), o1 @ snd (orderer_overflow st1))"
    by (simp add: orderer_write_def split: prod.splits)
  from a orderer_overflow_chars [of st1]
  show "\<exists>k. 1 \<le> k \<and> k \<le> length (buffer st1) \<and>
         (\<forall>j<k. out_i (buffer st1 ! j) = out_i (hd (buffer st1)) + int j) \<and>
         (k < length (buffer st1) \<longrightarrow>
            out_i (buffer st1 ! k) \<noteq> out_i (hd (buffer st1)) + int k) \<and>
         snd (orderer_write st d) =
           o1 @
           (if out_i (hd (buffer st1)) - nextEmittableChunkIndex st1 = 1
            then [\<lparr>out_i = nextEmittableChunkIndex st1, out_chunk = []\<rparr>] else []) @
           take k (buffer st1) \<and>
         buffer (fst (orderer_write st d)) = drop k (buffer st1) \<and>
         nextEmittableChunkIndex (fst (orderer_write st d)) = out_i (hd (buffer st1)) + int k"
    unfolding w by simp
qed (rule S6_a S6_b S7_a S7_b)+

lemma S6_state_eq: "S6_state =
   \<lparr>buffer = map frame_of [2, 3, 4, 5, 6, 7, 8, 9, 10], nextEmittableChunkIndex = 1,
    maxUnorderedChunks = 10\<rparr>"
  unfolding S6_state_def S6_input_def by code_simp

lemma S6_insert: "orderer_insert S6_state (frame_of 11) =
   Some (S6_state\<lparr>buffer := map frame_of [2, 3, 4, 5, 6, 7, 8, 9, 10, 11]\<rparr>, [])"
  unfolding S6_state_eq by code_simp

theorem orderer_overflow_policy_witness:
  "orderer_insert S6_state (frame_of 11) =
     Some (S6_state\<lparr>buffer := map frame_of [2, 3, 4, 5, 6, 7, 8, 9, 10, 11]\<rparr>, []) \<and>
   buffer (S6_state\<lparr>buffer := map frame_of [2, 3, 4, 5, 6, 7, 8, 9, 10, 11]\<rparr>) \<noteq> [] \<and>
   maxUnorderedChunks (S6_state\<lparr>buffer := map frame_of [2, 3, 4, 5, 6, 7, 8, 9, 10, 11]\<rparr>)
     \<le> length (buffer (S6_state\<lparr>buffer := map frame_of [2, 3, 4, 5, 6, 7, 8, 9, 10, 11]\<rparr>)) \<and>
   (\<exists>k. 1 \<le> k \<and> k \<le> 10 \<and>
      snd (orderer_write S6_state (frame_of 11)) =
        [\<lparr>out_i = 1, out_chunk = []\<rparr>] @ take k (map frame_of [2, 3, 4, 5, 6, 7, 8, 9, 10, 11]) \<and>
      buffer (fst (orderer_write S6_state (frame_of 11))) =
        drop k (map frame_of [2, 3, 4, 5, 6, 7, 8, 9, 10, 11]) \<and>
      nextEmittableChunkIndex (fst (orderer_write S6_state (frame_of 11))) = 2 + int k)"
proof -
  let ?st1 = "S6_state\<lparr>buffer := map frame_of [2, 3, 4, 5, 6, 7, 8, 9, 10, 11]\<rparr>"
  have h: "orderer_insert S6_state (frame_of 11) = Some (?st1, []) \<and> buffer ?st1 \<noteq> [] \<and>
      maxUnorderedChunks ?st1 \<le> length (buffer ?st1)"
    by (simp add: S6_insert) (simp add: S6_state_eq)
  have n: "nextEmittableChunkIndex ?st1 = 1" "out_i (hd (buffer ?st1)) = 2"
    by (simp_all add: S6_state_eq frame_of_def)
  from orderer_overflow_policy [THEN conjunct1, rule_format, OF h]
  obtain k where "1 \<le> k" "k \<le> length (buffer ?st1)"
    "snd (orderer_write S6_state (frame_of 11)) =
           [] @
           (if out_i (hd (buffer ?st1)) - nextEmittableChunkIndex ?st1 = 1
            then [\<lparr>out_i = nextEmittableChunkIndex ?st1, out_chunk = []\<rparr>] else []) @
           take k (buffer ?st1)"
    "buffer (fst (orderer_write S6_state (frame_of 11))) = drop k (buffer ?st1)"
    "nextEmittableChunkIndex (fst (orderer_write S6_state (frame_of 11))) =
       out_i (hd (buffer ?st1)) + int k"
    by blast
  then have "1 \<le> k \<and> k \<le> 10 \<and>
      snd (orderer_write S6_state (frame_of 11)) =
        [\<lparr>out_i = 1, out_chunk = []\<rparr>] @ take k (map frame_of [2, 3, 4, 5, 6, 7, 8, 9, 10, 11]) \<and>
      buffer (fst (orderer_write S6_state (frame_of 11))) =
        drop k (map frame_of [2, 3, 4, 5, 6, 7, 8, 9, 10, 11]) \<and>
      nextEmittableChunkIndex (fst (orderer_write S6_state (frame_of 11))) = 2 + int k"
    unfolding n by simp
  with h show ?thesis by blast
qed

subsection \<open>Order of the emitted indices\<close>

text \<open>
  Claim C2 says that the emitted indices are strictly increasing for every input, duplicated
  records included. With \<open>maxUnorderedChunks = 10\<close> and the received indices
  0, 2, 2, 1, 4, 5, ..., 12 the orderer emits 0, 1, 2 and then 2 again: the second copy of
  frame 2 stays at the head of the buffer below the next emittable index, and the overflow
  policy restarts from it.
\<close>

theorem orderer_duplicate_reemitted:
  "map out_i (snd (orderer_writes (new_AudioChunkStreamOrderer 10) duplicate_input)) = [0, 1, 2, 2] \<and>
   \<not> sorted_wrt (<) (map out_i (snd (orderer_writes (new_AudioChunkStreamOrderer 10) duplicate_input)))"
proof -
  have e: "map out_i (snd (orderer_writes (new_AudioChunkStreamOrderer 10) duplicate_input)) = [0, 1, 2, 2]"
    unfolding duplicate_input_def by code_simp
  show ?thesis unfolding e by simp
qed

text \<open>
  The defect needs a duplicate: if no index occurs twice in the input (and the indices are
  not negative, as the deframer's are), the indices emitted are strictly increasing.
\<close>

lemma emitted_between_Nil [simp]: "emitted_between lo [] hi \<longleftrightarrow> lo \<le> hi"
  by (simp add: emitted_between_def)

lemma emitted_between_Cons:
  "out_i c = lo \<Longrightarrow> emitted_between (lo + 1) out hi \<Longrightarrow> emitted_between lo (c # out) hi"
  by (fastforce simp: emitted_between_def)

lemma emitted_between_append:
  "emitted_between lo xs mid \<Longrightarrow> emitted_between mid ys hi \<Longrightarrow>
   emitted_between lo (xs @ ys) hi"
  by (fastforce simp: emitted_between_def sorted_wrt_append)

lemma emitted_between_weaken:
  "emitted_between lo out hi \<Longrightarrow> lo' \<le> lo \<Longrightarrow> emitted_between lo' out hi"
  by (fastforce simp: emitted_between_def)

lemma emitNext_sorted:
  assumes "sorted_wrt (<) (map out_i (buffer st))"
    and "\<forall>c\<in>set (buffer st). nextEmittableChunkIndex st \<le> out_i c"
  shows "emitted_between (nextEmittableChunkIndex st) (snd (emitNextChunksInBuffer st))
           (nextEmittableChunkIndex (fst (emitNextChunksInBuffer st))) \<and>
         sorted_wrt (<) (map out_i (buffer (fst (emitNextChunksInBuffer st)))) \<and>
         (\<forall>c\<in>set (buffer (fst (emitNextChunksInBuffer st))).
            nextEmittableChunkIndex (fst (emitNextChunksInBuffer st)) < out_i c) \<and>
         set (buffer (fst (emitNextChunksInBuffer st))) \<subseteq> set (buffer st)"
  using assms
proof (induction st rule: emitNext_induct)
  case (Nil st)
  then show ?case by (simp add: emitNext_Nil)
next
  case (miss st c cs)
  then have "nextEmittableChunkIndex st < out_i c" by fastforce
  moreover from miss have "\<forall>c'\<in>set cs. out_i c < out_i c'" by simp
  ultimately have "\<forall>c'\<in>set (buffer st). nextEmittableChunkIndex st < out_i c'"
    using miss(1) by fastforce
  with miss show ?case by (simp add: emitNext_miss)
next
  case (hit st c cs)
  let ?st' = "st\<lparr>nextEmittableChunkIndex := out_i c + 1, buffer := cs\<rparr>"
  from hit.prems hit.hyps have s: "sorted_wrt (<) (map out_i (buffer ?st'))"
    and b: "\<forall>c'\<in>set (buffer ?st'). nextEmittableChunkIndex ?st' \<le> out_i c'"
    by auto
  from hit.IH [OF s b]
  have ih: "emitted_between (out_i c + 1) (snd (emitNextChunksInBuffer ?st'))
           (nextEmittableChunkIndex (fst (emitNextChunksInBuffer ?st')))"
    "sorted_wrt (<) (map out_i (buffer (fst (emitNextChunksInBuffer ?st'))))"
    "\<forall>c'\<in>set (buffer (fst (emitNextChunksInBuffer ?st'))).
        nextEmittableChunkIndex (fst (emitNextChunksInBuffer ?st')) < out_i c'"
    "set (buffer (fst (emitNextChunksInBuffer ?st'))) \<subseteq> set cs"
    by simp_all
  from ih(1) hit.hyps(2)
  have "emitted_between (nextEmittableChunkIndex st) (c # snd (emitNextChunksInBuffer ?st'))
           (nextEmittableChunkIndex (fst (emitNextChunksInBuffer ?st')))"
    by (intro emitted_between_Cons) simp_all
  with ih(2-4) hit.hyps show ?case by (auto simp: emitNext_hit)
qed

lemma sorted_wrt_less_sorted:
  "sorted_wrt (<) (map f xs) \<Longrightarrow> sorted (map f xs)"
  for f :: "'a \<Rightarrow> int"
  by (induction xs) (auto simp: less_imp_le)

lemma sort_key_strict_snoc:
  fixes f :: "'a \<Rightarrow> int"
  assumes "sorted_wrt (<) (map f xs)" "\<forall>x\<in>set xs. f x \<noteq> f d"
  shows "sorted_wrt (<) (map f (sort_key f (xs @ [d])))"
proof -
  have "distinct (map f (xs @ [d]))"
    using assms by (auto simp: strict_sorted_iff dest: sorted_wrt_less_sorted)
  then have "distinct (map f (sort_key f (xs @ [d])))"
    by (metis distinct_map distinct_sort set_sort)
  moreover have "sorted (map f (sort_key f (xs @ [d])))" by (rule sorted_sort_key)
  ultimately show ?thesis by (simp add: strict_sorted_iff)
qed

lemma sort_key_strict_id:
  fixes f :: "'a \<Rightarrow> int"
  assumes "sorted_wrt (<) (map f xs)"
  shows "sort_key f xs = xs"
  using assms by (intro sort_key_id_if_sorted sorted_wrt_less_sorted)

lemma orderer_anchor_inv:
  assumes "orderer_inv st" "0 \<le> out_i d"
  shows "buffer (orderer_anchor st d) = buffer st \<and>
         maxUnorderedChunks (orderer_anchor st d) = maxUnorderedChunks st \<and>
         0 \<le> nextEmittableChunkIndex (orderer_anchor st d) \<and>
         nextEmittableChunkIndex st \<le> nextEmittableChunkIndex (orderer_anchor st d) \<and>
         (\<forall>c\<in>set (buffer st). nextEmittableChunkIndex (orderer_anchor st d) < out_i c)"
  using assms by (auto simp: orderer_inv_def orderer_anchor_def)

lemma orderer_insert_increasing:
  assumes inv: "orderer_inv st" and d0: "0 \<le> out_i d"
    and fresh: "\<forall>c\<in>set (buffer st). out_i c \<noteq> out_i d"
    and ins: "orderer_insert st d = Some (st2, o2)"
  shows "orderer_inv st2 \<and>
         emitted_between (nextEmittableChunkIndex (orderer_anchor st d)) o2
           (nextEmittableChunkIndex st2) \<and>
         set (buffer st2) \<subseteq> insert d (set (buffer st))"
proof -
  let ?st0 = "orderer_anchor st d"
  let ?n0 = "nextEmittableChunkIndex ?st0"
  from orderer_anchor_inv [OF inv d0]
  have a: "buffer ?st0 = buffer st" "0 \<le> ?n0" "\<forall>c\<in>set (buffer st). ?n0 < out_i c"
    by simp_all
  from inv have srt: "sorted_wrt (<) (map out_i (buffer st))" by (simp add: orderer_inv_def)
  from ins have nl: "\<not> out_i d < ?n0"
    by (auto simp: orderer_insert_def Let_def split: if_splits)
  show ?thesis
  proof (cases "?n0 = out_i d")
    case True
    let ?s = "?st0\<lparr>nextEmittableChunkIndex := out_i d + 1, buffer := buffer st\<rparr>"
    from ins True nl have r: "st2 = fst (emitNextChunksInBuffer ?s)"
      "o2 = d # snd (emitNextChunksInBuffer ?s)"
      by (auto simp: orderer_insert_def Let_def emitChunk_def a(1) sort_key_strict_id [OF srt]
          split: prod.splits)
    have s1: "sorted_wrt (<) (map out_i (buffer ?s))" using srt by simp
    have s2: "\<forall>c\<in>set (buffer ?s). nextEmittableChunkIndex ?s \<le> out_i c"
      using a(3) True by auto
    from emitNext_sorted [OF s1 s2]
    have e: "emitted_between (out_i d + 1) (snd (emitNextChunksInBuffer ?s))
               (nextEmittableChunkIndex st2)"
      "sorted_wrt (<) (map out_i (buffer st2))"
      "\<forall>c\<in>set (buffer st2). nextEmittableChunkIndex st2 < out_i c"
      "set (buffer st2) \<subseteq> set (buffer st)"
      unfolding r by simp_all
    from e(1) True have "emitted_between ?n0 o2 (nextEmittableChunkIndex st2)"
      unfolding r by (intro emitted_between_Cons) simp_all
    moreover from this a(2) have "0 \<le> nextEmittableChunkIndex st2"
      by (simp add: emitted_between_def)
    ultimately show ?thesis using e(2-4) by (auto simp: orderer_inv_def)
  next
    case False
    with nl have gt: "?n0 < out_i d" by simp
    let ?s = "?st0\<lparr>buffer := sort_key out_i (buffer st @ [d])\<rparr>"
    from ins False nl have r: "st2 = fst (emitNextChunksInBuffer ?s)"
      "o2 = snd (emitNextChunksInBuffer ?s)"
      by (auto simp: orderer_insert_def Let_def a(1) split: prod.splits)
    have s1: "sorted_wrt (<) (map out_i (buffer ?s))"
      using sort_key_strict_snoc [OF srt fresh] by simp
    have s2: "\<forall>c\<in>set (buffer ?s). nextEmittableChunkIndex ?s \<le> out_i c"
      using a(3) gt by auto
    from emitNext_sorted [OF s1 s2]
    have e: "emitted_between ?n0 o2 (nextEmittableChunkIndex st2)"
      "sorted_wrt (<) (map out_i (buffer st2))"
      "\<forall>c\<in>set (buffer st2). nextEmittableChunkIndex st2 < out_i c"
      "set (buffer st2) \<subseteq> insert d (set (buffer st))"
      unfolding r by auto
    from e(1) a(2) have "0 \<le> nextEmittableChunkIndex st2"
      by (simp add: emitted_between_def)
    with e show ?thesis by (auto simp: orderer_inv_def)
  qed
qed

lemma orderer_overflow_increasing:
  assumes inv: "orderer_inv st2"
  shows "orderer_inv (fst (orderer_overflow st2)) \<and>
         emitted_between (nextEmittableChunkIndex st2) (snd (orderer_overflow st2))
           (nextEmittableChunkIndex (fst (orderer_overflow st2))) \<and>
         set (buffer (fst (orderer_overflow st2))) \<subseteq> set (buffer st2)"
proof (cases "buffer st2 \<noteq> [] \<and> maxUnorderedChunks st2 \<le> length (buffer st2)")
  case False
  with inv show ?thesis by (auto simp: orderer_overflow_def)
next
  case True
  let ?n = "nextEmittableChunkIndex st2"
  let ?h = "out_i (hd (buffer st2))"
  let ?s = "st2\<lparr>nextEmittableChunkIndex := ?h\<rparr>"
  let ?syn = "if ?h - ?n = 1 then [\<lparr>out_i = ?n, out_chunk = []\<rparr>] else []"
  from inv have srt: "sorted_wrt (<) (map out_i (buffer st2))"
    and gt: "\<forall>c\<in>set (buffer st2). ?n < out_i c" and n0: "?n = - 1 \<and> buffer st2 = [] \<or> 0 \<le> ?n"
    by (simp_all add: orderer_inv_def)
  from True obtain c cs where b: "buffer st2 = c # cs" by (cases "buffer st2") auto
  have ov: "orderer_overflow st2 =
      (fst (emitNextChunksInBuffer ?s), ?syn @ snd (emitNextChunksInBuffer ?s))"
    using True by (simp add: orderer_overflow_def emitChunk_def split: prod.splits)
  have s1: "sorted_wrt (<) (map out_i (buffer ?s))" using srt by simp
  have s2: "\<forall>c'\<in>set (buffer ?s). nextEmittableChunkIndex ?s \<le> out_i c'"
    using srt b by (auto simp: less_imp_le)
  from emitNext_sorted [OF s1 s2]
  have e: "emitted_between ?h (snd (emitNextChunksInBuffer ?s))
             (nextEmittableChunkIndex (fst (emitNextChunksInBuffer ?s)))"
    "sorted_wrt (<) (map out_i (buffer (fst (emitNextChunksInBuffer ?s))))"
    "\<forall>c'\<in>set (buffer (fst (emitNextChunksInBuffer ?s))).
       nextEmittableChunkIndex (fst (emitNextChunksInBuffer ?s)) < out_i c'"
    "set (buffer (fst (emitNextChunksInBuffer ?s))) \<subseteq> set (buffer st2)"
    by simp_all
  from gt b have hn: "?n < ?h" by simp
  have "emitted_between ?n ?syn ?h"
    using hn by (simp add: emitted_between_def)
  from emitted_between_append [OF this e(1)]
  have tot: "emitted_between ?n (?syn @ snd (emitNextChunksInBuffer ?s))
      (nextEmittableChunkIndex (fst (emitNextChunksInBuffer ?s)))" .
  from n0 b have "0 \<le> ?n" by simp
  with tot have "0 \<le> nextEmittableChunkIndex (fst (emitNextChunksInBuffer ?s))"
    by (simp add: emitted_between_def)
  with e(2-4) tot show ?thesis unfolding ov by (simp add: orderer_inv_def)
qed

lemma orderer_write_increasing:
  assumes inv: "orderer_inv st" and d0: "0 \<le> out_i d"
    and fresh: "\<forall>c\<in>set (buffer st). out_i c \<noteq> out_i d"
  shows "orderer_inv (fst (orderer_write st d)) \<and>
         emitted_between (nextEmittableChunkIndex (orderer_anchor st d))
           (snd (orderer_write st d)) (nextEmittableChunkIndex (fst (orderer_write st d))) \<and>
         set (buffer (fst (orderer_write st d))) \<subseteq> insert d (set (buffer st))"
proof (cases "orderer_insert st d")
  case None
  from orderer_anchor_inv [OF inv d0] inv
  have "orderer_inv (orderer_anchor st d)" by (auto simp: orderer_inv_def)
  with None orderer_anchor_inv [OF inv d0] show ?thesis
    by (auto simp: orderer_write_def)
next
  case (Some p)
  obtain st2 o2 where p: "p = (st2, o2)" by (cases p)
  from orderer_insert_increasing [OF inv d0 fresh Some [unfolded p]]
  have i: "orderer_inv st2"
    "emitted_between (nextEmittableChunkIndex (orderer_anchor st d)) o2 (nextEmittableChunkIndex st2)"
    "set (buffer st2) \<subseteq> insert d (set (buffer st))" by simp_all
  from orderer_overflow_increasing [OF i(1)]
  have o: "orderer_inv (fst (orderer_overflow st2))"
    "emitted_between (nextEmittableChunkIndex st2) (snd (orderer_overflow st2))
           (nextEmittableChunkIndex (fst (orderer_overflow st2)))"
    "set (buffer (fst (orderer_overflow st2))) \<subseteq> set (buffer st2)" by simp_all
  have w: "orderer_write st d = (fst (orderer_overflow st2), o2 @ snd (orderer_overflow st2))"
    using Some p by (simp add: orderer_write_def split: prod.splits)
  from emitted_between_append [OF i(2) o(2)] o(1) o(3) i(3) show ?thesis
    unfolding w by auto
qed

lemma orderer_writes_increasing:
  assumes "orderer_inv st" "distinct (map out_i ds)" "\<forall>d\<in>set ds. 0 \<le> out_i d"
    "\<forall>d\<in>set ds. \<forall>c\<in>set (buffer st). out_i c \<noteq> out_i d"
  shows "sorted_wrt (<) (map out_i (snd (orderer_writes st ds))) \<and>
         (\<forall>c\<in>set (snd (orderer_writes st ds)). nextEmittableChunkIndex st \<le> out_i c)"
  using assms
proof (induction ds arbitrary: st)
  case Nil
  then show ?case by simp
next
  case (Cons d ds)
  let ?st1 = "fst (orderer_write st d)"
  let ?o1 = "snd (orderer_write st d)"
  from Cons.prems have d0: "0 \<le> out_i d" and fresh: "\<forall>c\<in>set (buffer st). out_i c \<noteq> out_i d"
    by simp_all
  from orderer_write_increasing [OF Cons.prems(1) d0 fresh]
  have w: "orderer_inv ?st1"
    "emitted_between (nextEmittableChunkIndex (orderer_anchor st d)) ?o1
       (nextEmittableChunkIndex ?st1)"
    "set (buffer ?st1) \<subseteq> insert d (set (buffer st))" by simp_all
  from orderer_anchor_inv [OF Cons.prems(1) d0]
  have lo: "nextEmittableChunkIndex st \<le> nextEmittableChunkIndex (orderer_anchor st d)" by simp
  have f1: "\<forall>d'\<in>set ds. \<forall>c\<in>set (buffer ?st1). out_i c \<noteq> out_i d'"
  proof (intro ballI)
    fix d' c assume d': "d' \<in> set ds" and c: "c \<in> set (buffer ?st1)"
    from c w(3) have "c = d \<or> c \<in> set (buffer st)" by auto
    then show "out_i c \<noteq> out_i d'"
    proof
      assume "c = d"
      with Cons.prems(2) d' show ?thesis by auto
    next
      assume "c \<in> set (buffer st)"
      with Cons.prems(4) d' show ?thesis by simp
    qed
  qed
  from Cons.prems have "distinct (map out_i ds)" "\<forall>d\<in>set ds. 0 \<le> out_i d" by simp_all
  from Cons.IH [OF w(1) this f1]
  have ih: "sorted_wrt (<) (map out_i (snd (orderer_writes ?st1 ds)))"
    "\<forall>c\<in>set (snd (orderer_writes ?st1 ds)). nextEmittableChunkIndex ?st1 \<le> out_i c"
    by simp_all
  from w(2) ih lo show ?case
    unfolding orderer_writes_Cons_snd
    by (fastforce simp: emitted_between_def sorted_wrt_append)
qed

theorem orderer_increasing_without_duplicates:
  assumes "distinct (map out_i ds)" "\<forall>d\<in>set ds. 0 \<le> out_i d"
  shows "sorted_wrt (<) (map out_i (snd (orderer_writes (new_AudioChunkStreamOrderer m) ds)))"
proof -
  have "orderer_inv (new_AudioChunkStreamOrderer m)"
    by (simp add: orderer_inv_def new_AudioChunkStreamOrderer_def)
  from orderer_writes_increasing [OF this assms] show ?thesis
    by (simp add: new_AudioChunkStreamOrderer_def)
qed

section \<open>Properties of the framer and the deframer\<close>

lemma uint_byte_of_int: "uint (word_of_int x :: byte) = x mod 256"
  by (simp add: uint_word_of_int)

lemma bytes_of_u32:
  fixes u :: int
  assumes "0 \<le> u" "u < 4294967296"
  shows "(u div 16777216 mod 256) * 16777216 + (u div 65536 mod 256) * 65536 +
         (u div 256 mod 256) * 256 + u mod 256 = u"
proof -
  define q1 where "q1 = u div 256"
  define q2 where "q2 = q1 div 256"
  define q3 where "q3 = q2 div 256"
  have e2: "u div 65536 = q2"
    using zdiv_zmult2_eq [of 256 u 256] by (simp add: q1_def q2_def)
  have e3: "u div 16777216 = q3"
    using zdiv_zmult2_eq [of 256 "u div 256" 256] zdiv_zmult2_eq [of 65536 u 256]
    by (simp add: q1_def q2_def q3_def)
  have "0 \<le> q3" "q3 < 256" using assms unfolding e3 [symmetric] by simp_all
  then have m3: "q3 mod 256 = q3" by simp
  have d1: "u = q1 * 256 + u mod 256" by (simp add: q1_def)
  have d2: "q1 = q2 * 256 + q1 mod 256" by (simp add: q2_def)
  have d3: "q2 = q3 * 256 + q2 mod 256" by (simp add: q3_def)
  have "q3 * 16777216 + (q2 mod 256) * 65536 + (q1 mod 256) * 256 + u mod 256 = u"
    using d1 d2 d3 by linarith
  then show ?thesis by (simp add: e2 e3 m3 q1_def [symmetric])
qed

lemma from_be32_be32: "from_be32 (be32 v) = v mod 2 ^ 32"
proof -
  define u where "u = v mod 2 ^ 32"
  have r: "0 \<le> u" "u < 4294967296" by (simp_all add: u_def)
  have "from_be32 (be32 v) =
      (u div 16777216 mod 256) * 16777216 + (u div 65536 mod 256) * 65536 +
      (u div 256 mod 256) * 256 + u mod 256"
    unfolding u_def by (simp add: from_be32_def be32_def Let_def uint_byte_of_int)
  also have "\<dots> = u" by (rule bytes_of_u32 [OF r])
  finally show ?thesis by (simp add: u_def)
qed

lemma length_be32 [simp]: "length (be32 v) = 4"
  by (simp add: be32_def Let_def)

lemma encoder_write_result:
  assumes "ta_valid h c"
  shows "encoder_write h \<lparr>out_i = i, out_chunk = c\<rparr> =
     Inr (h @ [be32 i @ ta_bytes h c],
          [\<lparr>ta_buffer = length h, byteOffset = 0, byteLength = 4 + byteLength c,
            instanceofBuffer = False\<rparr>])"
proof -
  from assms have l: "length (ta_bytes h c) = byteLength c"
    by (auto simp: ta_valid_def ta_bytes_def)
  from assms have b: "ta_buffer c < length h" by (simp add: ta_valid_def)
  have c': "ta_bytes (h @ [x]) c = ta_bytes h c" for x
    using b by (simp add: ta_bytes_def nth_append)
  show ?thesis
    by (simp add: encoder_write_def new_Uint8Array_def setUint32_def ta_set_def
        write_bytes_def c' l)
qed

lemma decoder_write_result:
  assumes "\<not> instanceofBuffer r" "ta_buffer r < length h"
    "byteOffset r + 4 \<le> length (h ! ta_buffer r)"
  shows "decoder_write h r =
     Inr (h @ [drop 4 (ta_bytes h r)],
          [\<lparr>out_i = from_be32 (take 4 (drop (byteOffset r) (h ! ta_buffer r))),
            out_chunk = \<lparr>ta_buffer = length h, byteOffset = 0,
                         byteLength = length (drop 4 (ta_bytes h r)),
                         instanceofBuffer = False\<rparr>\<rparr>])"
  using assms
  by (simp add: decoder_write_def getUint32_def ta_slice_def Let_def)

lemma framer_roundtrip:
  assumes i: "0 \<le> i" "i < 2 ^ 32" and c: "ta_valid h c"
  shows "\<exists>h1 r h2 f.
      encoder_write h \<lparr>out_i = i, out_chunk = c\<rparr> = Inr (h1, [r]) \<and>
      ta_bytes h1 r = be32 i @ ta_bytes h c \<and>
      decoder_write h1 r = Inr (h2, [f]) \<and>
      out_i f = i \<and> ta_bytes h2 (out_chunk f) = ta_bytes h c \<and>
      length h1 \<le> ta_buffer (out_chunk f) \<and> ta_buffer (out_chunk f) \<noteq> ta_buffer r \<and>
      take (length h1) h2 = h1"
proof -
  define h1 where "h1 = h @ [be32 i @ ta_bytes h c]"
  define r where "r = \<lparr>ta_buffer = length h, byteOffset = 0, byteLength = 4 + byteLength c,
            instanceofBuffer = False\<rparr>"
  from c have l: "length (ta_bytes h c) = byteLength c"
    by (auto simp: ta_valid_def ta_bytes_def)
  have e: "encoder_write h \<lparr>out_i = i, out_chunk = c\<rparr> = Inr (h1, [r])"
    unfolding h1_def r_def by (rule encoder_write_result [OF c])
  have rb: "ta_bytes h1 r = be32 i @ ta_bytes h c"
    by (simp add: ta_bytes_def h1_def r_def l)
  have d: "decoder_write h1 r =
     Inr (h1 @ [drop 4 (ta_bytes h1 r)],
          [\<lparr>out_i = from_be32 (take 4 (drop (byteOffset r) (h1 ! ta_buffer r))),
            out_chunk = \<lparr>ta_buffer = length h1, byteOffset = 0,
                         byteLength = length (drop 4 (ta_bytes h1 r)),
                         instanceofBuffer = False\<rparr>\<rparr>])"
    by (rule decoder_write_result) (simp_all add: r_def h1_def)
  define p where "p = drop 4 (ta_bytes h1 r)"
  define f where "f = \<lparr>out_i = from_be32 (take 4 (drop (byteOffset r) (h1 ! ta_buffer r))),
            out_chunk = \<lparr>ta_buffer = length h1, byteOffset = 0, byteLength = length p,
                         instanceofBuffer = False\<rparr>\<rparr>"
  have d': "decoder_write h1 r = Inr (h1 @ [p], [f])"
    unfolding f_def p_def by (rule d)
  have ix: "out_i f = i"
    using i from_be32_be32 [of i] by (simp add: f_def r_def h1_def)
  have p: "p = ta_bytes h c" by (simp add: p_def rb)
  have fb: "ta_bytes (h1 @ [p]) (out_chunk f) = p"
    by (simp add: ta_bytes_def f_def)
  have fr: "length h1 \<le> ta_buffer (out_chunk f)" "ta_buffer (out_chunk f) \<noteq> ta_buffer r"
    by (simp_all add: f_def r_def h1_def)
  from e rb d' ix fb fr show ?thesis unfolding p by (intro exI [of _ h1] exI [of _ r] exI [of _ "h1 @ [ta_bytes h c]"] exI [of _ f]) simp
qed

text \<open>
  Claim C1. For every index \<open>0 \<le> i < 2^32\<close> and every payload (of any length, so also of
  every length that fits the transport), \<open>AudioChunkStreamEncoder.write\<close> emits the record
  \<open>be32 i || payload\<close> and \<open>AudioChunkStreamDecoder.write\<close> of that record emits
  \<open>(i, payload)\<close>; the payload returned lives in an ArrayBuffer allocated by the decoder,
  different from the record's and from every buffer that existed before, which are left
  as they were. For \<open>(0xDEADBEEF, [1, 2, 3])\<close> the record is the seven bytes
  \<open>DE AD BE EF 01 02 03\<close> and decoding returns \<open>(0xDEADBEEF, [1, 2, 3])\<close>.
\<close>

theorem framer_deframer_identity:
  "(\<forall>h i c. 0 \<le> i \<and> i < 2 ^ 32 \<and> ta_valid h c \<longrightarrow>
      (\<exists>h1 r h2 f.
         encoder_write h \<lparr>out_i = i, out_chunk = c\<rparr> = Inr (h1, [r]) \<and>
         ta_bytes h1 r = be32 i @ ta_bytes h c \<and>
         decoder_write h1 r = Inr (h2, [f]) \<and>
         out_i f = i \<and> ta_bytes h2 (out_chunk f) = ta_bytes h c \<and>
         length h1 \<le> ta_buffer (out_chunk f) \<and> ta_buffer (out_chunk f) \<noteq> ta_buffer r \<and>
         take (length h1) h2 = h1)) \<and>
   ta_bytes S4_heap (out_chunk S4_frame) = [0x01, 0x02, 0x03] \<and>
   (\<exists>h1 r h2 f.
      encoder_write S4_heap S4_frame = Inr (h1, [r]) \<and>
      ta_bytes h1 r = [0xDE, 0xAD, 0xBE, 0xEF, 0x01, 0x02, 0x03] \<and>
      decoder_write h1 r = Inr (h2, [f]) \<and>
      out_i f = 0xDEADBEEF \<and> ta_bytes h2 (out_chunk f) = [0x01, 0x02, 0x03])"
proof (intro conjI)
  show "\<forall>h i c. 0 \<le> i \<and> i < 2 ^ 32 \<and> ta_valid h c \<longrightarrow>
      (\<exists>h1 r h2 f.
         encoder_write h \<lparr>out_i = i, out_chunk = c\<rparr> = Inr (h1, [r]) \<and>
         ta_bytes h1 r = be32 i @ ta_bytes h c \<and>
         decoder_write h1 r = Inr (h2, [f]) \<and>
         out_i f = i \<and> ta_bytes h2 (out_chunk f) = ta_bytes h c \<and>
         length h1 \<le> ta_buffer (out_chunk f) \<and> ta_buffer (out_chunk f) \<noteq> ta_buffer r \<and>
         take (length h1) h2 = h1)"
    using framer_roundtrip by blast
  show p: "ta_bytes S4_heap (out_chunk S4_frame) = [0x01, 0x02, 0x03]"
    by (simp add: ta_bytes_def S4_heap_def S4_frame_def)
  have v: "ta_valid S4_heap (out_chunk S4_frame)"
    by (simp add: ta_valid_def S4_heap_def S4_frame_def)
  have b: "be32 0xDEADBEEF = [0xDE, 0xAD, 0xBE, 0xEF]"
    by (simp add: be32_def)
  have f: "S4_frame = \<lparr>out_i = 0xDEADBEEF, out_chunk = out_chunk S4_frame\<rparr>"
    by (simp add: S4_frame_def)
  from framer_roundtrip [of "0xDEADBEEF" S4_heap "out_chunk S4_frame", OF _ _ v]
  show "\<exists>h1 r h2 f.
      encoder_write S4_heap S4_frame = Inr (h1, [r]) \<and>
      ta_bytes h1 r = [0xDE, 0xAD, 0xBE, 0xEF, 0x01, 0x02, 0x03] \<and>
      decoder_write h1 r = Inr (h2, [f]) \<and>
      out_i f = 0xDEADBEEF \<and> ta_bytes h2 (out_chunk f) = [0x01, 0x02, 0x03]"
    unfolding p b f [symmetric] by auto
qed

theorem framer_deframer_identity_witness:
  "(0::int) \<le> 0xDEADBEEF \<and> (0xDEADBEEF::int) < 2 ^ 32 \<and> ta_valid S4_heap (out_chunk S4_frame) \<and>
   (\<exists>h1 r h2 f.
         encoder_write S4_heap \<lparr>out_i = 0xDEADBEEF, out_chunk = out_chunk S4_frame\<rparr> = Inr (h1, [r]) \<and>
         ta_bytes h1 r = be32 0xDEADBEEF @ ta_bytes S4_heap (out_chunk S4_frame) \<and>
         decoder_write h1 r = Inr (h2, [f]) \<and>
         out_i f = 0xDEADBEEF \<and> ta_bytes h2 (out_chunk f) = ta_bytes S4_heap (out_chunk S4_frame) \<and>
         length h1 \<le> ta_buffer (out_chunk f) \<and> ta_buffer (out_chunk f) \<noteq> ta_buffer r \<and>
         take (length h1) h2 = h1)"
proof -
  have h: "(0::int) \<le> 0xDEADBEEF \<and> (0xDEADBEEF::int) < 2 ^ 32 \<and> ta_valid S4_heap (out_chunk S4_frame)"
    by (simp add: ta_valid_def S4_heap_def S4_frame_def)
  from framer_deframer_identity [THEN conjunct1, rule_format, OF h] h
  show ?thesis by blast
qed

text \<open>
  Claim C6 says that a record shorter than four bytes is discarded without an error.
  \<open>AudioChunkStreamDecoder.write\<close> has no length test: on a three-byte record that fills
  its ArrayBuffer, \<open>getUint32(0)\<close> throws a \<open>RangeError\<close>, which leaves \<open>write\<close>.
\<close>

theorem deframer_short_record_raises:
  "ta_valid short_heap short_record \<and> byteLength short_record < 4 \<and>
   decoder_write short_heap short_record = Inl RangeError \<and>
   decoder_write short_heap short_record \<noteq> Inr (short_heap, [])"
  by (simp add: ta_valid_def short_heap_def short_record_def decoder_write_def getUint32_def)

text \<open>
  Claim C6 as amended. No record shorter than four bytes is discarded. \<open>write\<close> reads the
  index with \<open>getUint32(0)\<close> at the start of the view it reads (the record's own start, or
  the start of the whole ArrayBuffer for a \<open>Buffer\<close>), up to the end of the ArrayBuffer. If
  fewer than four bytes lie there, it raises a \<open>RangeError\<close>: nothing is emitted and
  nothing is allocated or changed. Otherwise it emits one frame: the index is made of those
  four bytes, which run past the end of the record, and the payload is what \<open>slice(4)\<close>
  copies into a new ArrayBuffer, nothing for a \<open>Uint8Array\<close> record and the ArrayBuffer
  from its fifth byte on for a \<open>Buffer\<close>.
\<close>

theorem deframer_short_record:
  assumes "byteLength d < 4"
  shows "decoder_write h d =
     (if length (h ! ta_buffer d) < (if instanceofBuffer d then 0 else byteOffset d) + 4
      then Inl RangeError
      else Inr (h @ [if instanceofBuffer d then drop 4 (h ! ta_buffer d) else []],
             [\<lparr>out_i = from_be32 (take 4 (drop (if instanceofBuffer d then 0 else byteOffset d)
                                            (h ! ta_buffer d))),
               out_chunk = \<lparr>ta_buffer = length h, byteOffset = 0,
                  byteLength = (if instanceofBuffer d then length (h ! ta_buffer d) - 4 else 0),
                  instanceofBuffer = False\<rparr>\<rparr>])) \<and>
     decoder_write h d \<noteq> Inr (h, [])"
  using assms
  by (auto simp: decoder_write_def getUint32_def ta_slice_def ta_bytes_def Let_def)

theorem deframer_short_record_witness:
  "byteLength short_record < 4 \<and> ta_valid short_heap short_record \<and>
   decoder_write short_heap short_record = Inl RangeError \<and>
   byteLength pool_record < 4 \<and> ta_valid pool_heap pool_record \<and>
   ta_bytes pool_heap pool_record = [1, 2, 3] \<and>
   decoder_write pool_heap pool_record =
     Inr (pool_heap @ [[]],
          [\<lparr>out_i = 0x01020307,
            out_chunk = \<lparr>ta_buffer = 1, byteOffset = 0, byteLength = 0,
                         instanceofBuffer = False\<rparr>\<rparr>]) \<and>
   byteLength pool_Buffer < 4 \<and> ta_valid pool_heap pool_Buffer \<and>
   ta_bytes pool_heap pool_Buffer = [1, 2, 3] \<and>
   decoder_write pool_heap pool_Buffer =
     Inr (pool_heap @ [[3, 7, 7]],
          [\<lparr>out_i = 0x09090102,
            out_chunk = \<lparr>ta_buffer = 1, byteOffset = 0, byteLength = 3,
                         instanceofBuffer = False\<rparr>\<rparr>])"
proof -
  have s: "byteLength short_record < 4" and p: "byteLength pool_record < 4"
    and b: "byteLength pool_Buffer < 4"
    by (simp_all add: short_record_def pool_record_def pool_Buffer_def)
  have v: "ta_valid short_heap short_record" "ta_valid pool_heap pool_record"
    "ta_valid pool_heap pool_Buffer"
    "ta_bytes pool_heap pool_record = [1, 2, 3]" "ta_bytes pool_heap pool_Buffer = [1, 2, 3]"
    by (simp_all add: ta_valid_def ta_bytes_def short_heap_def short_record_def pool_heap_def
        pool_record_def pool_Buffer_def)
  from deframer_short_record [OF s, of short_heap]
  have 1: "decoder_write short_heap short_record = Inl RangeError"
    by (simp add: short_heap_def short_record_def)
  from deframer_short_record [OF p, of pool_heap]
  have 2: "decoder_write pool_heap pool_record =
     Inr (pool_heap @ [[]],
          [\<lparr>out_i = 0x01020307,
            out_chunk = \<lparr>ta_buffer = 1, byteOffset = 0, byteLength = 0,
                         instanceofBuffer = False\<rparr>\<rparr>])"
    by (simp add: pool_heap_def pool_record_def from_be32_def)
  from deframer_short_record [OF b, of pool_heap]
  have 3: "decoder_write pool_heap pool_Buffer =
     Inr (pool_heap @ [[3, 7, 7]],
          [\<lparr>out_i = 0x09090102,
            out_chunk = \<lparr>ta_buffer = 1, byteOffset = 0, byteLength = 3,
                         instanceofBuffer = False\<rparr>\<rparr>])"
    by (simp add: pool_heap_def pool_Buffer_def from_be32_def)
  from s p b v 1 2 3 show ?thesis by simp
qed

section \<open>Properties of AudioChunkStreamResampler\<close>

subsection \<open>Helper facts on typed-array operations\<close>

lemma subarray_in_range:
  assumes "0 \<le> b" "b \<le> e" "e \<le> int (length a)"
  shows "subarray a b e = (nat b, take (nat e - nat b) (drop (nat b) a))"
proof -
  from assms have "clamp_index b (length a) = nat b" "clamp_index e (length a) = nat e"
    by (auto simp: clamp_index_def)
  then show ?thesis by (simp add: subarray_def Let_def)
qed

lemma length_write_bytes:
  "pos + length bs \<le> length buf \<Longrightarrow> length (write_bytes buf pos bs) = length buf"
  by (simp add: write_bytes_def)

lemma u8_set_length:
  "u8_set target src off = Inr b \<Longrightarrow> length b = length target"
  by (auto simp: u8_set_def length_write_bytes split: if_splits)

lemma resampler_store_fields:
  assumes "resampler_store st oc = Inr st'"
  shows "length (alignementBuffer st') = length (alignementBuffer st) \<and>
         bufferOffset st' = bufferOffset st \<and> bufferSize st' = bufferSize st \<and>
         chunkIndexToEmit st' = chunkIndexToEmit st \<and>
         outputChunkTargetLength st' = outputChunkTargetLength st"
proof (cases "length (alignementBuffer st) < bufferOffset st + length oc")
  case True
  with assms obtain b1 b2 where
    "u8_set (alignementBuffer st)
        (snd (subarray oc 0 (int (length oc) - (int (bufferOffset st) + int (length oc)
                          - int (length (alignementBuffer st)))))) (bufferOffset st) = Inr b1"
    "u8_set b1 (snd (subarray oc (int (length oc) - (int (bufferOffset st) + int (length oc)
                          - int (length (alignementBuffer st)))) (int (length oc)))) 0 = Inr b2"
    "st' = st\<lparr>alignementBuffer := b2\<rparr>"
    by (simp add: resampler_store_def Let_def split: sum.splits)
  then show ?thesis using u8_set_length by fastforce
next
  case False
  with assms obtain b1 where
    "u8_set (alignementBuffer st) oc (bufferOffset st) = Inr b1"
    "st' = st\<lparr>alignementBuffer := b1\<rparr>"
    by (simp add: resampler_store_def split: sum.splits)
  then show ?thesis using u8_set_length by fastforce
qed

lemma resampler_store_nonempty:
  assumes "resampler_store st oc = Inr st'" "oc \<noteq> []"
    "bufferOffset st \<le> length (alignementBuffer st)"
  shows "0 < length (alignementBuffer st)"
proof (rule ccontr)
  assume "\<not> 0 < length (alignementBuffer st)"
  then have z: "alignementBuffer st = []" "bufferOffset st = 0" using assms(3) by simp_all
  from assms(2) have l: "0 < length oc" by simp
  have "snd (subarray oc 0 (int (length oc))) = oc"
    by (simp add: subarray_in_range)
  with assms(1) z l show False
    by (auto simp: resampler_store_def Let_def u8_set_def write_bytes_def subarray_in_range
        split: if_splits sum.splits)
qed

subsection \<open>The emit loop\<close>

lemma resampler_emit_stop:
  "\<not> (outputChunkTargetLength st \<le> bufferSize st \<and> chunkIndexToEmit st \<noteq> []) \<Longrightarrow>
   resampler_emit st = (st, [])"
  by (subst resampler_emit.simps) auto

lemma resampler_emit_step:
  "outputChunkTargetLength st \<le> bufferSize st \<Longrightarrow> chunkIndexToEmit st \<noteq> [] \<Longrightarrow>
   resampler_emit st =
     (fst (resampler_emit (st\<lparr>chunkIndexToEmit := tl (chunkIndexToEmit st),
                               bufferSize := bufferSize st - outputChunkTargetLength st\<rparr>)),
      \<lparr>out_i = hd (chunkIndexToEmit st),
       out_chunk = subarray (alignementBuffer st)
         (rollover (int (bufferOffset st) - int (bufferSize st)) 0
            (int (length (alignementBuffer st))))
         (rollover (int (bufferOffset st) - int (bufferSize st)) 0
            (int (length (alignementBuffer st))) + int (outputChunkTargetLength st))\<rparr> #
      snd (resampler_emit (st\<lparr>chunkIndexToEmit := tl (chunkIndexToEmit st),
                               bufferSize := bufferSize st - outputChunkTargetLength st\<rparr>)))"
  by (simp add: resampler_emit.simps [of st] Let_def split: prod.splits)

lemma resampler_emit_induct [case_names stop step]:
  fixes P :: "AudioChunkStreamResampler \<Rightarrow> bool"
  assumes "\<And>st. \<not> (outputChunkTargetLength st \<le> bufferSize st \<and> chunkIndexToEmit st \<noteq> []) \<Longrightarrow> P st"
    and "\<And>st. outputChunkTargetLength st \<le> bufferSize st \<Longrightarrow> chunkIndexToEmit st \<noteq> [] \<Longrightarrow>
           P (st\<lparr>chunkIndexToEmit := tl (chunkIndexToEmit st),
                 bufferSize := bufferSize st - outputChunkTargetLength st\<rparr>) \<Longrightarrow> P st"
  shows "P st"
proof (induction st rule: resampler_emit.induct)
  case (1 st)
  show ?case
  proof (cases "outputChunkTargetLength st \<le> bufferSize st \<and> chunkIndexToEmit st \<noteq> []")
    case True
    have "P (st\<lparr>chunkIndexToEmit := tl (chunkIndexToEmit st)\<rparr>
              \<lparr>bufferSize := bufferSize (st\<lparr>chunkIndexToEmit := tl (chunkIndexToEmit st)\<rparr>)
                 - outputChunkTargetLength (st\<lparr>chunkIndexToEmit := tl (chunkIndexToEmit st)\<rparr>)\<rparr>)"
      by (rule "1.IH" [OF True refl refl refl refl refl])
    then have p: "P (st\<lparr>chunkIndexToEmit := tl (chunkIndexToEmit st),
                 bufferSize := bufferSize st - outputChunkTargetLength st\<rparr>)"
      by simp
    from True have "outputChunkTargetLength st \<le> bufferSize st" "chunkIndexToEmit st \<noteq> []"
      by simp_all
    then show ?thesis using p by (rule assms(2))
  next
    case False
    then show ?thesis by (rule assms(1))
  qed
qed


lemma no_straddle_arith:
  fixes t c :: nat and x :: int
  assumes t: "0 < t" and tc: "t dvd c" and c: "0 < c" and tx: "int t dvd x"
  shows "0 \<le> x mod int c \<and> x mod int c + int t \<le> int c \<and> int t dvd x mod int c"
proof -
  let ?r = "x mod int c"
  have r0: "0 \<le> ?r" and rc: "?r < int c" using c by simp_all
  from tc have tc': "int t dvd int c" by (simp only: int_dvd_int_iff)
  have tr: "int t dvd ?r" using tx tc' by (rule dvd_mod)
  then obtain a where a: "?r = int t * a" by (auto simp: dvd_def)
  from tc' obtain b where b: "int c = int t * b" by (auto simp: dvd_def)
  from rc a b t have "a < b" by (simp add: mult_less_cancel_left_pos)
  then have "a + 1 \<le> b" by simp
  then have "int t * (a + 1) \<le> int t * b" using t by (simp add: mult_le_cancel_left_pos)
  then have "int t * a + int t \<le> int t * b" by (simp add: distrib_left)
  then have "?r + int t \<le> int c" using a b by linarith
  with r0 tr show ?thesis by simp
qed

lemma resampler_emit_fields:
  "length (alignementBuffer (fst (resampler_emit st))) = length (alignementBuffer st) \<and>
   outputChunkTargetLength (fst (resampler_emit st)) = outputChunkTargetLength st \<and>
   bufferOffset (fst (resampler_emit st)) = bufferOffset st"
  by (induction st rule: resampler_emit_induct)
     (simp_all add: resampler_emit_stop resampler_emit_step)

lemma rs_inv_emit_step:
  assumes "rs_inv st" "outputChunkTargetLength st \<le> bufferSize st"
  shows "rs_inv (st\<lparr>chunkIndexToEmit := ix,
                    bufferSize := bufferSize st - outputChunkTargetLength st\<rparr>)"
proof -
  define t where "t = outputChunkTargetLength st"
  define d where "d = int (bufferOffset st) - int (bufferSize st)"
  have e: "int (bufferOffset st) - int (bufferSize st - t) = d + int t"
    using assms(2) by (simp add: d_def t_def of_nat_diff)
  from assms(1) have "int t dvd d" by (simp add: rs_inv_def d_def t_def)
  then have "int t dvd d + int t" by (rule dvd_add) simp
  then have "int t dvd int (bufferOffset st) - int (bufferSize st - t)"
    by (simp only: e)
  with assms(1) show ?thesis by (simp add: rs_inv_def t_def)
qed

lemma resampler_emit_inv:
  "rs_inv st \<Longrightarrow> rs_inv (fst (resampler_emit st))"
proof (induction st rule: resampler_emit_induct)
  case (stop st)
  then show ?case by (simp add: resampler_emit_stop)
next
  case (step st)
  from step.prems step.hyps(1) have "rs_inv (st\<lparr>chunkIndexToEmit := tl (chunkIndexToEmit st),
                    bufferSize := bufferSize st - outputChunkTargetLength st\<rparr>)"
    by (rule rs_inv_emit_step)
  with step.IH step.hyps show ?case by (simp add: resampler_emit_step)
qed

lemma resampler_emit_no_straddle:
  assumes "rs_inv st" "0 < length (alignementBuffer st)" "f \<in> set (snd (resampler_emit st))"
  shows "fst (out_chunk f) + outputChunkTargetLength st \<le> length (alignementBuffer st) \<and>
         length (snd (out_chunk f)) = outputChunkTargetLength st"
  using assms
proof (induction st rule: resampler_emit_induct)
  case (stop st)
  then show ?case by (simp add: resampler_emit_stop)
next
  case (step st)
  let ?st' = "st\<lparr>chunkIndexToEmit := tl (chunkIndexToEmit st),
                    bufferSize := bufferSize st - outputChunkTargetLength st\<rparr>"
  let ?r = "rollover (int (bufferOffset st) - int (bufferSize st)) 0
            (int (length (alignementBuffer st)))"
  let ?c = "\<lparr>out_i = hd (chunkIndexToEmit st),
       out_chunk = subarray (alignementBuffer st) ?r (?r + int (outputChunkTargetLength st))\<rparr>"
  from step.prems(3) step.hyps have "f = ?c \<or> f \<in> set (snd (resampler_emit ?st'))"
    by (simp add: resampler_emit_step)
  then show ?case
  proof
    assume f: "f = ?c"
    from step.prems(1) have t: "0 < outputChunkTargetLength st"
      "outputChunkTargetLength st dvd length (alignementBuffer st)"
      "int (outputChunkTargetLength st) dvd int (bufferOffset st) - int (bufferSize st)"
      by (simp_all add: rs_inv_def)
    from no_straddle_arith [OF t(1) t(2) step.prems(2) t(3)]
    have r: "0 \<le> ?r" "?r + int (outputChunkTargetLength st) \<le> int (length (alignementBuffer st))"
      by (simp_all add: rollover_def)
    have "subarray (alignementBuffer st) ?r (?r + int (outputChunkTargetLength st)) =
          (nat ?r, take (nat (?r + int (outputChunkTargetLength st)) - nat ?r)
                     (drop (nat ?r) (alignementBuffer st)))"
      using r by (intro subarray_in_range) simp_all
    moreover have "nat (?r + int (outputChunkTargetLength st)) - nat ?r = outputChunkTargetLength st"
      using r by linarith
    moreover have "nat ?r + outputChunkTargetLength st \<le> length (alignementBuffer st)"
      using r by linarith
    ultimately show ?thesis by (simp add: f)
  next
    assume "f \<in> set (snd (resampler_emit ?st'))"
    moreover have "rs_inv ?st'" using step.prems(1) step.hyps(1) by (rule rs_inv_emit_step)
    ultimately show ?thesis using step.IH step.prems(2) by simp
  qed
qed

lemma new_resampler_inv:
  assumes "new_AudioChunkStreamResampler channels samples_count align_len = Inr st0"
  shows "rs_inv st0 \<and> chunkIndexToEmit st0 = [] \<and> length (alignementBuffer st0) = align_len \<and>
         outputChunkTargetLength st0 = samples_count * channels * 4 \<and>
         bufferOffset st0 = 0 \<and> bufferSize st0 = 0"
  using assms
  by (auto simp: new_AudioChunkStreamResampler_def Let_def rs_inv_def split: if_splits)

lemma rs_inv_advance:
  assumes inv: "rs_inv st" and c: "0 < length (alignementBuffer st)"
  shows "rs_inv (st\<lparr>bufferSize := bufferSize st + n,
                    bufferOffset := (bufferOffset st + n) mod length (alignementBuffer st)\<rparr>)"
proof -
  define t where "t = int (outputChunkTargetLength st)"
  define cap where "cap = int (length (alignementBuffer st))"
  define x where "x = int (bufferOffset st) + int n"
  from inv have tc: "t dvd cap" by (simp add: rs_inv_def t_def cap_def)
  from inv have td: "t dvd int (bufferOffset st) - int (bufferSize st)"
    by (simp add: rs_inv_def t_def)
  have "x mod cap - x = - (x div cap) * cap"
    by (simp add: minus_div_mult_eq_mod [symmetric])
  then have "cap dvd x mod cap - x" by simp
  with tc have "t dvd x mod cap - x" by (rule dvd_trans)
  with td have "t dvd (x mod cap - x) + (int (bufferOffset st) - int (bufferSize st))"
    by (rule dvd_add [rotated])
  moreover have "(x mod cap - x) + (int (bufferOffset st) - int (bufferSize st)) =
      int ((bufferOffset st + n) mod length (alignementBuffer st)) - int (bufferSize st + n)"
    by (simp add: x_def cap_def zmod_int)
  ultimately have "t dvd int ((bufferOffset st + n) mod length (alignementBuffer st))
      - int (bufferSize st + n)" by simp
  moreover have "(bufferOffset st + n) mod length (alignementBuffer st) \<le> length (alignementBuffer st)"
    using c by (simp add: less_imp_le)
  ultimately show ?thesis using inv by (simp add: rs_inv_def t_def)
qed

lemma resampler_write_cases:
  assumes "resampler_write st d = Inr (st', out)"
  obtains (not_ready) "\<not> soxrModule d" "st' = st" "out = []"
  | (no_output) "soxrModule d" "processChunk d = []"
      "st' = st\<lparr>chunkIndexToEmit := chunkIndexToEmit st @ [in_i d]\<rparr>" "out = []"
  | (stored) st2 where "soxrModule d" "processChunk d \<noteq> []"
      "resampler_store (st\<lparr>chunkIndexToEmit := chunkIndexToEmit st @ [in_i d]\<rparr>)
         (processChunk d) = Inr st2"
      "(st', out) = resampler_emit
         (st2\<lparr>bufferSize := bufferSize st2 + length (processChunk d),
              bufferOffset := (bufferOffset st2 + length (processChunk d))
                                mod length (alignementBuffer st2)\<rparr>)"
  using assms
  by (auto simp: resampler_write_def Let_def split: if_splits sum.splits)

lemma resampler_write_inv:
  assumes inv: "rs_inv st" and w: "resampler_write st d = Inr (st', out)"
  shows "rs_inv st' \<and> length (alignementBuffer st') = length (alignementBuffer st) \<and>
         outputChunkTargetLength st' = outputChunkTargetLength st \<and>
         (\<forall>f\<in>set out.
            fst (out_chunk f) + outputChunkTargetLength st \<le> length (alignementBuffer st) \<and>
            length (snd (out_chunk f)) = outputChunkTargetLength st)"
  using w
proof (cases rule: resampler_write_cases)
  case not_ready
  with inv show ?thesis by simp
next
  case no_output
  with inv show ?thesis by (simp add: rs_inv_def)
next
  case (stored st2)
  let ?st1 = "st\<lparr>chunkIndexToEmit := chunkIndexToEmit st @ [in_i d]\<rparr>"
  let ?st3 = "st2\<lparr>bufferSize := bufferSize st2 + length (processChunk d),
              bufferOffset := (bufferOffset st2 + length (processChunk d))
                                mod length (alignementBuffer st2)\<rparr>"
  from resampler_store_fields [OF stored(3)]
  have f2: "length (alignementBuffer st2) = length (alignementBuffer st)"
    "bufferOffset st2 = bufferOffset st" "bufferSize st2 = bufferSize st"
    "outputChunkTargetLength st2 = outputChunkTargetLength st"
    by simp_all
  from inv have off: "bufferOffset ?st1 \<le> length (alignementBuffer ?st1)"
    by (simp add: rs_inv_def)
  from resampler_store_nonempty [OF stored(3) stored(2) off]
  have c: "0 < length (alignementBuffer st)" by simp
  from inv f2 have "rs_inv st2" by (simp add: rs_inv_def)
  moreover have "0 < length (alignementBuffer st2)" using c f2(1) by linarith
  ultimately have i3: "rs_inv ?st3" by (rule rs_inv_advance)
  have c3: "0 < length (alignementBuffer ?st3)" using c f2 by simp
  from stored(4) have e: "st' = fst (resampler_emit ?st3)" "out = snd (resampler_emit ?st3)"
    by (simp_all add: prod_eq_iff)
  have "rs_inv st'" unfolding e by (rule resampler_emit_inv [OF i3])
  moreover have "length (alignementBuffer st') = length (alignementBuffer st)"
    "outputChunkTargetLength st' = outputChunkTargetLength st"
    unfolding e using resampler_emit_fields [of ?st3] f2 by simp_all
  moreover have "\<forall>f\<in>set out.
            fst (out_chunk f) + outputChunkTargetLength st \<le> length (alignementBuffer st) \<and>
            length (snd (out_chunk f)) = outputChunkTargetLength st"
  proof
    fix f assume "f \<in> set out"
    then have "f \<in> set (snd (resampler_emit ?st3))" by (simp add: e)
    from resampler_emit_no_straddle [OF i3 c3 this] f2
    show "fst (out_chunk f) + outputChunkTargetLength st \<le> length (alignementBuffer st) \<and>
            length (snd (out_chunk f)) = outputChunkTargetLength st" by simp
  qed
  ultimately show ?thesis by simp
qed


lemma resampler_writes_Cons_Inr:
  "resampler_write st d = Inr (st1, o1) \<Longrightarrow>
   resampler_writes st (d # ds) =
     (fst (resampler_writes st1 ds), o1 @ fst (snd (resampler_writes st1 ds)),
      snd (snd (resampler_writes st1 ds)))"
  by (simp split: prod.splits)

lemma resampler_writes_inv:
  assumes "rs_inv st"
  shows "rs_inv (fst (resampler_writes st ds)) \<and>
         length (alignementBuffer (fst (resampler_writes st ds))) = length (alignementBuffer st) \<and>
         outputChunkTargetLength (fst (resampler_writes st ds)) = outputChunkTargetLength st \<and>
         (\<forall>f\<in>set (fst (snd (resampler_writes st ds))).
            fst (out_chunk f) + outputChunkTargetLength st \<le> length (alignementBuffer st) \<and>
            length (snd (out_chunk f)) = outputChunkTargetLength st)"
  using assms
proof (induction ds arbitrary: st)
  case Nil
  then show ?case by simp
next
  case (Cons d ds)
  show ?case
  proof (cases "resampler_write st d")
    case (Inl e)
    with Cons.prems show ?thesis by simp
  next
    case (Inr r)
    obtain st1 o1 where r: "r = (st1, o1)" by (cases r)
    from resampler_write_inv [OF Cons.prems Inr [unfolded r]]
    have w: "rs_inv st1" "length (alignementBuffer st1) = length (alignementBuffer st)"
      "outputChunkTargetLength st1 = outputChunkTargetLength st"
      "\<forall>f\<in>set o1.
            fst (out_chunk f) + outputChunkTargetLength st \<le> length (alignementBuffer st) \<and>
            length (snd (out_chunk f)) = outputChunkTargetLength st"
      by simp_all
    from Cons.IH [OF w(1)] w show ?thesis
      unfolding resampler_writes_Cons_Inr [OF Inr [unfolded r]] by auto
  qed
qed









text \<open>
  Claim C8. For a resampler whose construction succeeded (the length of the alignment
  buffer is a multiple of the target length), in every run every emitted frame is a view
  that starts at an offset \<open>r\<close> with \<open>r + outputChunkTargetLength \<le> length alignementBuffer\<close>
  and shows exactly \<open>outputChunkTargetLength\<close> bytes; and in every state reached the read
  offset \<open>rollover (bufferOffset - bufferSize) 0 length\<close> leaves room for a whole frame
  before the end of the buffer.
\<close>

theorem resampler_no_straddle:
  assumes "new_AudioChunkStreamResampler channels samples_count align_len = Inr st0"
  shows "list_all (\<lambda>f. fst (out_chunk f) + outputChunkTargetLength st0
                         \<le> length (alignementBuffer st0) \<and>
                       length (snd (out_chunk f)) = outputChunkTargetLength st0)
           (fst (snd (resampler_writes st0 ds))) \<and>
         (0 < align_len \<longrightarrow>
            0 \<le> rollover (int (bufferOffset (fst (resampler_writes st0 ds)))
                            - int (bufferSize (fst (resampler_writes st0 ds)))) 0
                   (int (length (alignementBuffer (fst (resampler_writes st0 ds))))) \<and>
            rollover (int (bufferOffset (fst (resampler_writes st0 ds)))
                       - int (bufferSize (fst (resampler_writes st0 ds)))) 0
              (int (length (alignementBuffer (fst (resampler_writes st0 ds)))))
              + int (outputChunkTargetLength (fst (resampler_writes st0 ds)))
            \<le> int (length (alignementBuffer (fst (resampler_writes st0 ds)))))"
proof -
  from new_resampler_inv [OF assms] have i: "rs_inv st0" "length (alignementBuffer st0) = align_len"
    by simp_all
  let ?st = "fst (resampler_writes st0 ds)"
  from resampler_writes_inv [OF i(1), of ds]
  have w: "rs_inv ?st" "length (alignementBuffer ?st) = align_len"
    "outputChunkTargetLength ?st = outputChunkTargetLength st0"
    "\<forall>f\<in>set (fst (snd (resampler_writes st0 ds))).
            fst (out_chunk f) + outputChunkTargetLength st0 \<le> length (alignementBuffer st0) \<and>
            length (snd (out_chunk f)) = outputChunkTargetLength st0"
    using i(2) by simp_all
  have "0 \<le> rollover (int (bufferOffset ?st) - int (bufferSize ?st)) 0 (int (length (alignementBuffer ?st))) \<and>
        rollover (int (bufferOffset ?st) - int (bufferSize ?st)) 0 (int (length (alignementBuffer ?st)))
          + int (outputChunkTargetLength ?st) \<le> int (length (alignementBuffer ?st))"
    if c: "0 < align_len"
  proof -
    from w(1) have t: "0 < outputChunkTargetLength ?st"
      "outputChunkTargetLength ?st dvd length (alignementBuffer ?st)"
      "int (outputChunkTargetLength ?st) dvd int (bufferOffset ?st) - int (bufferSize ?st)"
      by (simp_all add: rs_inv_def)
    from c w(2) have c': "0 < length (alignementBuffer ?st)" by simp
    from no_straddle_arith [OF t(1) t(2) c' t(3)] show ?thesis by (simp add: rollover_def)
  qed
  with w(4) show ?thesis by (simp add: list_all_iff)
qed

theorem resampler_no_straddle_witness:
  "new_AudioChunkStreamResampler 1 1 12 = Inr wrap_resampler \<and>
   map (\<lambda>f. fst (out_chunk f)) (fst (snd (resampler_writes wrap_resampler wrap_input))) =
     [0, 4, 8, 0, 4, 8] \<and>
   list_all (\<lambda>f. fst (out_chunk f) + 4 \<le> 12 \<and> length (snd (out_chunk f)) = 4)
     (fst (snd (resampler_writes wrap_resampler wrap_input)))"
proof -
  have n: "new_AudioChunkStreamResampler 1 1 12 = Inr wrap_resampler"
    by (simp add: new_AudioChunkStreamResampler_def wrap_resampler_def)
  have m: "map (\<lambda>f. fst (out_chunk f)) (fst (snd (resampler_writes wrap_resampler wrap_input))) =
     [0, 4, 8, 0, 4, 8]"
    unfolding wrap_resampler_def wrap_input_def by code_simp
  from resampler_no_straddle [OF n, of wrap_input, THEN conjunct1]
  have "list_all (\<lambda>f. fst (out_chunk f) + 4 \<le> 12 \<and> length (snd (out_chunk f)) = 4)
     (fst (snd (resampler_writes wrap_resampler wrap_input)))"
    by (simp add: wrap_resampler_def)
  with n m show ?thesis by simp
qed

section \<open>Properties of AudioChunkStream\<close>

subsection \<open>Rounding to a double\<close>

lemma round_half_even_of_int [simp]: "round_half_even (real_of_int n) = n"
  by (simp add: round_half_even_def)

lemma round_half_even_lower: "\<lfloor>x\<rfloor> \<le> round_half_even x"
  by (simp add: round_half_even_def Let_def)

lemma round_half_even_upper: "real_of_int (round_half_even x) \<le> x + 1 / 2"
  unfolding round_half_even_def Let_def by (auto; linarith)

lemma double_0 [simp]: "double 0 = 0"
  using round_half_even_of_int [of 0] by (simp add: double_def Let_def)

lemma exponent_eq:
  assumes "2 powr real_of_int e \<le> \<bar>x\<bar>" "\<bar>x\<bar> < 2 powr (real_of_int e + 1)"
  shows "\<lfloor>log 2 \<bar>x\<bar>\<rfloor> = e"
proof -
  have p: "0 < \<bar>x\<bar>" using assms(1) powr_gt_zero [of 2 "real_of_int e"] by linarith
  have "real_of_int e \<le> log 2 \<bar>x\<bar>" using assms(1) p by (simp add: le_log_iff)
  moreover have "log 2 \<bar>x\<bar> < real_of_int e + 1" using assms(2) p by (simp add: log_less_iff)
  ultimately show ?thesis by linarith
qed

lemma double_eval:
  assumes "2 powr real_of_int e \<le> \<bar>x\<bar>" "\<bar>x\<bar> < 2 powr (real_of_int e + 1)" "- 1022 \<le> e"
  shows "double x = 2 powr (real_of_int e - 52)
           * real_of_int (round_half_even (x / 2 powr (real_of_int e - 52)))"
  using exponent_eq [OF assms(1,2)] assms(3) by (simp add: double_def max_def Let_def)

lemma exponent_bounds:
  assumes "x \<noteq> 0"
  shows "2 powr real_of_int \<lfloor>log 2 \<bar>x\<bar>\<rfloor> \<le> \<bar>x\<bar>" "\<bar>x\<bar> < 2 powr (real_of_int \<lfloor>log 2 \<bar>x\<bar>\<rfloor> + 1)"
proof -
  have p: "0 < \<bar>x\<bar>" using assms by simp
  have "real_of_int \<lfloor>log 2 \<bar>x\<bar>\<rfloor> \<le> log 2 \<bar>x\<bar>" by simp
  then show "2 powr real_of_int \<lfloor>log 2 \<bar>x\<bar>\<rfloor> \<le> \<bar>x\<bar>"
    using p by (subst le_log_iff [symmetric]) simp_all
  have "log 2 \<bar>x\<bar> < real_of_int \<lfloor>log 2 \<bar>x\<bar>\<rfloor> + 1" by linarith
  then show "\<bar>x\<bar> < 2 powr (real_of_int \<lfloor>log 2 \<bar>x\<bar>\<rfloor> + 1)"
    using p by (subst log_less_iff [symmetric]) simp_all
qed

lemma ulp_inverse_power:
  assumes "e \<le> 52"
  shows "2 powr (real_of_int e - 52) = 1 / 2 ^ nat (52 - e)"
proof -
  have "real_of_int e - 52 = - real (nat (52 - e))" using assms by simp
  then have "2 powr (real_of_int e - 52) = 2 powr (- real (nat (52 - e)))" by (simp only:)
  also have "\<dots> = inverse (2 powr real (nat (52 - e)))" by (rule powr_minus)
  also have "\<dots> = inverse (2 ^ nat (52 - e))" by (simp only: powr_realpow [OF zero_less_numeral])
  also have "\<dots> = 1 / 2 ^ nat (52 - e)" by (rule inverse_eq_divide)
  finally show ?thesis .
qed


lemma double_of_int:
  assumes "\<bar>k\<bar> < 2 ^ 53"
  shows "double (real_of_int k) = real_of_int k"
proof (cases "k = 0")
  case True
  then show ?thesis by simp
next
  case False
  define x where "x = real_of_int k"
  define e where "e = \<lfloor>log 2 \<bar>x\<bar>\<rfloor>"
  have x0: "x \<noteq> 0" using False by (simp add: x_def)
  have x1: "1 \<le> \<bar>x\<bar>"
  proof -
    from False have "1 \<le> \<bar>k\<bar>" by simp
    then have "real_of_int 1 \<le> real_of_int \<bar>k\<bar>" by (simp only: of_int_le_iff)
    then show ?thesis by (simp add: x_def)
  qed
  have p53: "(2::real) powr 53 = 2 ^ 53" by simp
  have x2: "\<bar>x\<bar> < 2 powr 53"
  proof -
    have "real_of_int \<bar>k\<bar> < real_of_int (2 ^ 53)" using assms by (simp only: of_int_less_iff)
    then show ?thesis unfolding p53 by (simp add: x_def)
  qed
  from exponent_bounds [OF x0]
  have lo: "2 powr real_of_int e \<le> \<bar>x\<bar>" and hi: "\<bar>x\<bar> < 2 powr (real_of_int e + 1)"
    by (simp_all add: e_def)
  from lo x2 have "2 powr real_of_int e < 2 powr 53" by (rule le_less_trans)
  then have "real_of_int e < 53" by (simp only: powr_less_cancel_iff)
  then have e_hi: "e \<le> 52" by linarith
  have "(2::real) powr 0 = 1" by simp
  with hi x1 have "2 powr 0 < 2 powr (real_of_int e + 1)" by linarith
  then have "0 < real_of_int e + 1" by (simp only: powr_less_cancel_iff)
  then have e_lo: "0 \<le> e" by linarith
  define j where "j = nat (52 - e)"
  have u: "2 powr (real_of_int e - 52) = 1 / 2 ^ j"
    unfolding j_def by (rule ulp_inverse_power [OF e_hi])
  have "x / (1 / 2 ^ j) = real_of_int (k * 2 ^ j)" by (simp add: x_def)
  then have r: "round_half_even (x / (1 / 2 ^ j)) = k * 2 ^ j"
    by (simp only: round_half_even_of_int)
  from e_lo have "- 1022 \<le> e" by simp
  from double_eval [OF lo hi this]
  have "double x = (1 / 2 ^ j) * real_of_int (round_half_even (x / (1 / 2 ^ j)))"
    by (simp only: u)
  also have "\<dots> = x" unfolding r by (simp add: x_def)
  finally show ?thesis by (simp add: x_def)
qed

lemma floor_double_quotient:
  fixes a b :: int
  assumes a: "0 \<le> a" "a < 2 ^ 53" and b: "0 < b" "b < 2 ^ 53"
  shows "\<lfloor>double (real_of_int a / real_of_int b)\<rfloor> = a div b"
proof (cases "a = 0")
  case True
  then show ?thesis by simp
next
  case False
  define q where "q = real_of_int a / real_of_int b"
  define n where "n = a div b"
  define e where "e = \<lfloor>log 2 \<bar>q\<bar>\<rfloor>"
  have ra: "1 \<le> real_of_int a" "real_of_int a < 2 ^ 53"
    using a False by (simp_all add: of_int_less_iff [of a "2 ^ 53", simplified])
  have rb: "1 \<le> real_of_int b" "real_of_int b < 2 ^ 53"
    using b by (simp_all add: of_int_less_iff [of b "2 ^ 53", simplified])
  have qpos: "0 < q" using ra rb by (simp add: q_def)
  have q_hi: "q < 2 ^ 53"
  proof -
    have "q \<le> real_of_int a" using ra rb by (simp add: q_def divide_le_eq mult_le_cancel_left1)
    with ra show ?thesis by simp
  qed
  have q_lo: "1 / real_of_int b \<le> q" using ra rb by (simp add: q_def divide_right_mono)
  have n: "n = \<lfloor>q\<rfloor>" by (simp add: n_def q_def floor_divide_of_int_eq)
  have gap: "1 / real_of_int b \<le> real_of_int n + 1 - q"
  proof -
    have "a = (a div b) * b + a mod b" by simp
    moreover have "a mod b < b" using b(1) by simp
    ultimately have "a < (a div b) * b + b" by linarith
    then have "a < (n + 1) * b" by (simp add: n_def algebra_simps)
    then have "a + 1 \<le> (n + 1) * b" by simp
    then have "real_of_int (a + 1) \<le> real_of_int ((n + 1) * b)" by (simp only: of_int_le_iff)
    then have "real_of_int a + 1 \<le> (real_of_int n + 1) * real_of_int b" by simp
    then have "(real_of_int a + 1) / real_of_int b \<le> real_of_int n + 1"
      using rb by (simp add: pos_divide_le_eq)
    then show ?thesis by (simp add: q_def add_divide_distrib)
  qed
  have q0: "q \<noteq> 0" using qpos by simp
  from exponent_bounds [OF q0] qpos
  have lo: "2 powr real_of_int e \<le> q" and hi: "q < 2 powr (real_of_int e + 1)"
    by (simp_all add: e_def)
  have p53: "(2::real) powr 53 = 2 ^ 53" by simp
  from lo q_hi have "2 powr real_of_int e < 2 powr 53" unfolding p53 by (rule le_less_trans)
  then have "real_of_int e < 53" by (simp only: powr_less_cancel_iff)
  then have e_hi: "e \<le> 52" by linarith
  have m53: "(2::real) powr (- 53) = 1 / 2 ^ 53" by (simp add: powr_minus divide_simps)
  have "1 / 2 ^ 53 < 1 / real_of_int b"
    using rb by (simp add: divide_simps)
  with q_lo hi have "2 powr (- 53) < 2 powr (real_of_int e + 1)" unfolding m53 by linarith
  then have "- 53 < real_of_int e + 1" by (simp only: powr_less_cancel_iff)
  then have e_lo: "- 1022 \<le> e" by linarith
  define j where "j = nat (52 - e)"
  have u: "2 powr (real_of_int e - 52) = 1 / 2 ^ j"
    unfolding j_def by (rule ulp_inverse_power [OF e_hi])
  define y where "y = q * 2 ^ j"
  from qpos lo hi have "2 powr real_of_int e \<le> \<bar>q\<bar>" "\<bar>q\<bar> < 2 powr (real_of_int e + 1)"
    by simp_all
  from double_eval [OF this e_lo]
  have "double q = (1 / 2 ^ j) * real_of_int (round_half_even (q / (1 / 2 ^ j)))"
    by (simp only: u)
  then have d: "double q = real_of_int (round_half_even y) / 2 ^ j"
    by (simp add: y_def)
  have half: "1 / 2 < (real_of_int n + 1 - q) * 2 ^ j"
  proof -
    have "2 powr (real_of_int e - 52) / 2 = 2 powr real_of_int e / 2 ^ 53"
      by (simp add: powr_diff)
    also have "\<dots> \<le> q / 2 ^ 53" using lo by (simp add: divide_right_mono)
    also have "\<dots> < 1 / real_of_int b"
      using ra rb by (simp add: q_def divide_simps)
    also have "\<dots> \<le> real_of_int n + 1 - q" by (rule gap)
    finally have "1 / 2 ^ j / 2 < real_of_int n + 1 - q" by (simp only: u)
    then have "1 / 2 * (1 / 2 ^ j) < real_of_int n + 1 - q" by simp
    then have "1 / 2 < (real_of_int n + 1 - q) / (1 / 2 ^ j)"
      by (subst pos_less_divide_eq) simp_all
    then show ?thesis by simp
  qed
  have "real_of_int (n * 2 ^ j) \<le> y"
    using n by (simp add: y_def)
  then have "n * 2 ^ j \<le> \<lfloor>y\<rfloor>" by (simp only: le_floor_iff)
  with round_half_even_lower [of y] have "n * 2 ^ j \<le> round_half_even y" by linarith
  then have "real_of_int (n * 2 ^ j) \<le> real_of_int (round_half_even y)" by (simp only: of_int_le_iff)
  then have l1: "real_of_int n \<le> double q" unfolding d by (simp add: pos_le_divide_eq)
  have "real_of_int (round_half_even y) \<le> y + 1 / 2" by (rule round_half_even_upper)
  also have "\<dots> < real_of_int ((n + 1) * 2 ^ j)"
    using half by (simp add: y_def algebra_simps)
  finally have "round_half_even y < (n + 1) * 2 ^ j" by (simp only: of_int_less_iff)
  then have "round_half_even y + 1 \<le> (n + 1) * 2 ^ j" by simp
  then have "real_of_int (round_half_even y + 1) \<le> real_of_int ((n + 1) * 2 ^ j)"
    by (simp only: of_int_le_iff)
  then have "real_of_int (round_half_even y) < (real_of_int n + 1) * 2 ^ j" by simp
  then have l2: "double q < real_of_int n + 1" unfolding d by (simp add: pos_divide_less_eq)
  from l1 l2 have "\<lfloor>double q\<rfloor> = n" by (intro floor_unique) simp_all
  then show ?thesis by (simp add: q_def n_def)
qed

lemma double_numeral [simp]:
  "(numeral k :: int) < 2 ^ 53 \<Longrightarrow> double (numeral k) = numeral k"
  using double_of_int [of "numeral k"] by simp

lemma double_neg_numeral [simp]:
  "(numeral k :: int) < 2 ^ 53 \<Longrightarrow> double (- numeral k) = - numeral k"
  using double_of_int [of "- numeral k"] by simp

lemma double_1 [simp]: "double 1 = 1"
  using double_of_int [of 1] by simp

lemma floor_double_divide_numeral [simp]:
  "(numeral a :: int) < 2 ^ 53 \<Longrightarrow> (numeral b :: int) < 2 ^ 53 \<Longrightarrow>
   \<lfloor>double (numeral a / numeral b)\<rfloor> = numeral a div numeral b"
  using floor_double_quotient [of "numeral a" "numeral b"] by simp



subsection \<open>One pass of the loop\<close>

lemma complete_chunk_fits:
  "length chunk \<le> n \<Longrightarrow> complete_chunk n chunk = Inr (chunk @ replicate (n - length chunk) 0)"
  by (simp add: complete_chunk_def u8_set_def write_bytes_def)

lemma complete_chunk_too_long:
  "n < length chunk \<Longrightarrow> complete_chunk n chunk = Inl RangeError"
  by (simp add: complete_chunk_def u8_set_def)

lemma iteration_cases [case_names future nodata stop raise emit]:
  obtains
    (future) "currentChunkLatency st ob < 0" "iteration st ob = (st, [], Break)"
  | (nodata) "\<not> currentChunkLatency st ob < 0" "read_result ob = None"
      "loopIterationWithoutData st + 1 < 5"
      "iteration st ob =
         (st\<lparr>loopIterationWithoutData := loopIterationWithoutData st + 1\<rparr>, [NoData], Break)"
  | (stop) "\<not> currentChunkLatency st ob < 0" "read_result ob = None"
      "5 \<le> loopIterationWithoutData st + 1"
      "iteration st ob =
         (st\<lparr>loopIterationWithoutData := 0, lastEmittedChunkIndex := - 1,
             readInterval := False\<rparr>, [NoData, Stopped], Break)"
  | (raise) chunk where "\<not> currentChunkLatency st ob < 0" "read_result ob = Some chunk"
      "chunkSize st < length chunk"
      "iteration st ob =
         (st\<lparr>loopIterationWithoutData := 0\<rparr>, [Raised RangeError], Throw RangeError)"
  | (emit) chunk where "\<not> currentChunkLatency st ob < 0" "read_result ob = Some chunk"
      "length chunk \<le> chunkSize st"
      "iteration st ob =
         (st\<lparr>loopIterationWithoutData := 0, lastEmittedChunkIndex := currentChunkIndex st ob\<rparr>,
          [Emit (clock_index ob) (clock_latency ob)
             \<lparr>out_i = currentChunkIndex st ob,
              out_chunk = chunk @ replicate (chunkSize st - length chunk) 0\<rparr>],
          Continue)"
proof (cases "currentChunkLatency st ob < 0")
  case True
  then show ?thesis by (intro future) (simp_all add: iteration_def)
next
  case False
  show ?thesis
  proof (cases "read_result ob")
    case None
    show ?thesis
    proof (cases "loopIterationWithoutData st + 1 < 5")
      case True
      with False None show ?thesis
        by (intro nodata)
           (simp_all add: iteration_def MIN_LOOP_ITERATION_WITHOUT_DATA_TO_STOP_READING_def)
    next
      case c: False
      with False None show ?thesis
        by (intro stop)
           (simp_all add: iteration_def MIN_LOOP_ITERATION_WITHOUT_DATA_TO_STOP_READING_def
              stopReadLoop_def)
    qed
  next
    case (Some chunk)
    show ?thesis
    proof (cases "chunkSize st < length chunk")
      case True
      with False Some show ?thesis
        by (intro raise [of chunk]) (simp_all add: iteration_def complete_chunk_too_long)
    next
      case c: False
      with False Some show ?thesis
        by (intro emit [of chunk]) (simp_all add: iteration_def complete_chunk_fits)
    qed
  qed
qed

subsection \<open>Lifting an invariant of state and trace to whole runs\<close>

lemma pushNecessaryChunks_invariant:
  fixes P :: "AudioChunkStream \<Rightarrow> action list \<Rightarrow> bool"
  assumes iter: "\<And>st pre ob st' a oc. P st pre \<Longrightarrow> iteration st ob = (st', a, oc) \<Longrightarrow> P st' (pre @ a)"
    and "P st pre" and "pushNecessaryChunks st obs = (st', acts, r)"
  shows "P st' (pre @ acts)"
  using assms(2,3)
proof (induction obs arbitrary: st pre acts st' r)
  case Nil
  then show ?case by simp
next
  case (Cons ob obs)
  obtain st1 a1 oc where it: "iteration st ob = (st1, a1, oc)" by (cases "iteration st ob")
  from iter [OF Cons.prems(1) it] have p1: "P st1 (pre @ a1)" .
  show ?case
  proof (cases oc)
    case Continue
    obtain st2 a2 r2 where pu: "pushNecessaryChunks st1 obs = (st2, a2, r2)"
      by (cases "pushNecessaryChunks st1 obs")
    from Cons.IH [OF p1 pu] have "P st2 ((pre @ a1) @ a2)" .
    with Cons.prems(2) it Continue pu show ?thesis by simp
  next
    case Break
    with Cons.prems(2) it p1 show ?thesis by simp
  next
    case (Throw e)
    with Cons.prems(2) it p1 show ?thesis by simp
  qed
qed

lemma handle_event_invariant:
  fixes P :: "AudioChunkStream \<Rightarrow> action list \<Rightarrow> bool"
  assumes iter: "\<And>st pre ob st' a oc. P st pre \<Longrightarrow> iteration st ob = (st', a, oc) \<Longrightarrow> P st' (pre @ a)"
    and reset: "\<And>st pre. P st pre \<Longrightarrow> P (st\<lparr>loopIterationWithoutData := 0\<rparr>) (pre @ [Signal])"
    and timer: "\<And>st pre. P st pre \<Longrightarrow> P (st\<lparr>readInterval := True\<rparr>) pre"
    and "P st pre" and "handle_event st ev = (st', acts, r)"
  shows "P st' (pre @ acts)"
proof (cases ev)
  case (Tick obs)
  show ?thesis
  proof (cases "readInterval st")
    case True
    with assms(5) Tick have "pushNecessaryChunks st obs = (st', acts, r)" by simp
    from pushNecessaryChunks_invariant [of P, OF iter assms(4) this] show ?thesis .
  next
    case False
    with assms(4,5) Tick show ?thesis by simp
  qed
next
  case (Readable obs)
  let ?st0 = "st\<lparr>loopIterationWithoutData := 0\<rparr>"
  from reset [OF assms(4)] have p0: "P ?st0 (pre @ [Signal])" .
  show ?thesis
  proof (cases "readInterval st")
    case True
    with assms(5) Readable p0 show ?thesis by (auto simp: startReadLoop_def)
  next
    case False
    obtain st1 a1 r1 where pu: "pushNecessaryChunks ?st0 obs = (st1, a1, r1)"
      by (cases "pushNecessaryChunks ?st0 obs")
    from pushNecessaryChunks_invariant [of P, OF iter p0 pu]
    have p1: "P st1 ((pre @ [Signal]) @ a1)" .
    show ?thesis
    proof (cases r1)
      case Returned
      with assms(5) Readable False pu have "st' = st1\<lparr>readInterval := True\<rparr>" "acts = Signal # a1"
        by (auto simp: startReadLoop_def)
      with timer [OF p1] show ?thesis by simp
    next
      case (Threw e)
      with assms(5) Readable False pu have "st' = st1" "acts = Signal # a1"
        by (auto simp: startReadLoop_def)
      with p1 show ?thesis by simp
    next
      case Unfinished
      with assms(5) Readable False pu have "st' = st1" "acts = Signal # a1"
        by (auto simp: startReadLoop_def)
      with p1 show ?thesis by simp
    qed
  qed
qed

lemma chunker_run_invariant:
  fixes P :: "AudioChunkStream \<Rightarrow> action list \<Rightarrow> bool"
  assumes iter: "\<And>st pre ob st' a oc. P st pre \<Longrightarrow> iteration st ob = (st', a, oc) \<Longrightarrow> P st' (pre @ a)"
    and reset: "\<And>st pre. P st pre \<Longrightarrow> P (st\<lparr>loopIterationWithoutData := 0\<rparr>) (pre @ [Signal])"
    and timer: "\<And>st pre. P st pre \<Longrightarrow> P (st\<lparr>readInterval := True\<rparr>) pre"
    and "P st pre" and "chunker_run st evs = (st', acts, r)"
  shows "P st' (pre @ acts)"
  using assms(4,5)
proof (induction evs arbitrary: st pre acts st' r)
  case Nil
  then show ?case by simp
next
  case (Cons ev evs)
  obtain st1 a1 r1 where h: "handle_event st ev = (st1, a1, r1)" by (cases "handle_event st ev")
  from handle_event_invariant [of P, OF iter reset timer Cons.prems(1) h]
  have p1: "P st1 (pre @ a1)" .
  show ?case
  proof (cases r1)
    case Returned
    obtain st2 a2 r2 where c: "chunker_run st1 evs = (st2, a2, r2)"
      by (cases "chunker_run st1 evs")
    from Cons.IH [OF p1 c] have "P st2 ((pre @ a1) @ a2)" .
    with Cons.prems(2) h Returned c show ?thesis by simp
  next
    case (Threw e)
    with Cons.prems(2) h p1 show ?thesis by simp
  next
    case Unfinished
    with Cons.prems(2) h p1 show ?thesis by simp
  qed
qed

subsection \<open>Chunk size\<close>

lemma emitted_append [simp]: "emitted (xs @ ys) = emitted xs @ emitted ys"
  by (induction xs rule: emitted.induct) simp_all

lemma chunker_run_chunk_size:
  assumes "chunker_run st evs = (st', acts, r)"
  shows "chunkSize st' = chunkSize st \<and>
         list_all (\<lambda>c. length (out_chunk c) = chunkSize st) (emitted acts)"
proof -
  let ?P = "\<lambda>s pre. chunkSize s = chunkSize st \<and>
              list_all (\<lambda>c. length (out_chunk c) = chunkSize st) (emitted pre)"
  have "?P st' ([] @ acts)"
  proof (rule chunker_run_invariant [of ?P, OF _ _ _ _ assms])
    fix s pre ob s' a oc
    assume p: "?P s pre" and it: "iteration s ob = (s', a, oc)"
    show "?P s' (pre @ a)"
      by (cases rule: iteration_cases [of s ob]) (use p it in auto)
  qed simp_all
  then show ?thesis by simp
qed

lemma iteration_null_read:
  assumes "read_result ob = None"
  shows "\<exists>st' a. iteration st ob = (st', a, Break) \<and> emitted a = []"
  by (cases rule: iteration_cases [of st ob]) (use assms in auto)

lemma S3_run:
  assumes n: "3 \<le> n" and l: "length bs = n + 3"
  shows "emitted (fst (snd (chunker_run (new_AudioChunkStream start dur n)
                              (S3_events n bs start dur)))) =
     [\<lparr>out_i = 0, out_chunk = take n bs\<rparr>,
      \<lparr>out_i = 1, out_chunk = drop n bs @ replicate (n - 3) 0\<rparr>]"
proof -
  have r1: "stream_read n (bs, True) = (Some (take n bs), (drop n bs, True))"
    using l n by (simp add: stream_read_def)
  have ne: "drop n bs \<noteq> []" using l by simp
  have r2: "stream_read n (drop n bs, True) =
      (if n = 3 then (Some (take n (drop n bs)), ([], True)) else (Some (drop n bs), ([], True)))"
    using l n ne by (auto simp: stream_read_def)
  have t3: "n = 3 \<Longrightarrow> take n (drop n bs) = drop n bs" using l by simp
  have r2': "stream_read n (drop n bs, True) = (Some (drop n bs), ([], True))"
    using r2 t3 by (cases "n = 3") simp_all
  have r3: "stream_read n ([], True) = (None, ([], True))"
    using n by (simp add: stream_read_def)
  have ev: "S3_events n bs start dur =
      [Readable [observed start (Some (take n bs)), observed start (Some (drop n bs))],
       Tick [observed (start + dur) (Some (drop n bs)), observed (start + dur) None]]"
    by (simp add: S3_events_def r1 r2' r3)
  let ?s0 = "new_AudioChunkStream start dur n"
  let ?s1 = "?s0\<lparr>loopIterationWithoutData := 0, lastEmittedChunkIndex := 0\<rparr>"
  let ?s2 = "?s1\<lparr>readInterval := True\<rparr>"
  let ?s3 = "?s2\<lparr>loopIterationWithoutData := 0, lastEmittedChunkIndex := 1\<rparr>"
  let ?c0 = "\<lparr>out_i = 0, out_chunk = take n bs\<rparr>"
  let ?c1 = "\<lparr>out_i = 1, out_chunk = drop n bs @ replicate (n - 3) 0\<rparr>"
  have i1: "iteration (?s0\<lparr>loopIterationWithoutData := 0\<rparr>)
              (observed start (Some (take n bs))) =
      (?s1, [Emit start start ?c0], Continue)"
    using l by (simp add: iteration_def currentChunkLatency_def currentChunkIndex_def
        new_AudioChunkStream_def observed_def complete_chunk_def)
  show ?thesis
  proof (cases "currentChunkLatency ?s1 (observed start (Some (drop n bs))) < 0")
    case True
    then have i2: "iteration ?s1 (observed start (Some (drop n bs))) = (?s1, [], Break)"
      by (simp add: iteration_def)
    have i3: "iteration ?s2 (observed (start + dur) (Some (drop n bs))) =
        (?s3, [Emit (start + dur) (start + dur) ?c1], Continue)"
      using l n by (simp add: iteration_def currentChunkLatency_def currentChunkIndex_def
          new_AudioChunkStream_def observed_def complete_chunk_fits)
    from iteration_null_read [of "observed (start + dur) None" ?s3]
    obtain st4 a4 where i4: "iteration ?s3 (observed (start + dur) None) = (st4, a4, Break)"
      "emitted a4 = []" by (auto simp: observed_def)
    have h1: "handle_event ?s0
         (Readable [observed start (Some (take n bs)), observed start (Some (drop n bs))]) =
        (?s2, [Signal, Emit start start ?c0], Returned)"
      using i1 i2 by (simp add: startReadLoop_def new_AudioChunkStream_def)
    have h2: "handle_event ?s2
         (Tick [observed (start + dur) (Some (drop n bs)), observed (start + dur) None]) =
        (st4, Emit (start + dur) (start + dur) ?c1 # a4, Returned)"
      using i3 i4(1) by (simp add: new_AudioChunkStream_def)
    show ?thesis unfolding ev using h1 h2 i4(2) by simp
  next
    case False
    then have i2: "iteration ?s1 (observed start (Some (drop n bs))) =
        (?s1\<lparr>loopIterationWithoutData := 0, lastEmittedChunkIndex := 1\<rparr>,
         [Emit start start ?c1], Continue)"
      using l n by (simp add: iteration_def currentChunkIndex_def
          new_AudioChunkStream_def observed_def complete_chunk_fits)
    have h1: "handle_event ?s0
         (Readable [observed start (Some (take n bs)), observed start (Some (drop n bs))]) =
        (?s1\<lparr>loopIterationWithoutData := 0, lastEmittedChunkIndex := 1\<rparr>,
         [Signal, Emit start start ?c0, Emit start start ?c1], Unfinished)"
      using i1 i2 by (simp add: startReadLoop_def new_AudioChunkStream_def)
    show ?thesis unfolding ev using h1 by simp
  qed
qed

text \<open>
  Claim C5. Every chunk that \<open>AudioChunkStream\<close> emits, in every run from every state and
  whatever the reads return, has exactly \<open>chunkSize\<close> bytes. When a read returns fewer
  bytes, the chunk emitted is those bytes followed by zeros up to \<open>chunkSize\<close>. Scenario S3:
  a source that holds \<open>chunkSize + 3\<close> bytes and has ended gives two chunks, the first
  \<open>chunkSize\<close> bytes and then the last three bytes followed by \<open>chunkSize - 3\<close> zeros.
\<close>

theorem chunker_chunk_size:
  "(\<forall>st evs. list_all (\<lambda>c. length (out_chunk c) = chunkSize st)
                (emitted (fst (snd (chunker_run st evs))))) \<and>
   (\<forall>st ob bs. read_result ob = Some bs \<and> length bs < chunkSize st \<and>
        \<not> currentChunkLatency st ob < 0 \<longrightarrow>
        emitted (fst (snd (iteration st ob))) =
          [\<lparr>out_i = currentChunkIndex st ob,
            out_chunk = bs @ replicate (chunkSize st - length bs) 0\<rparr>]) \<and>
   (\<forall>n bs start dur. 3 \<le> n \<and> length bs = n + 3 \<and> 0 < dur \<longrightarrow>
        emitted (fst (snd (chunker_run (new_AudioChunkStream start dur n)
                             (S3_events n bs start dur)))) =
          [\<lparr>out_i = 0, out_chunk = take n bs\<rparr>,
           \<lparr>out_i = 1, out_chunk = drop n bs @ replicate (n - 3) 0\<rparr>])"
proof (intro conjI allI impI)
  fix st evs
  obtain st' acts r where c: "chunker_run st evs = (st', acts, r)"
    by (cases "chunker_run st evs")
  from chunker_run_chunk_size [OF c] c
  show "list_all (\<lambda>c. length (out_chunk c) = chunkSize st)
          (emitted (fst (snd (chunker_run st evs))))" by simp
next
  fix st ob bs
  assume a: "read_result ob = Some bs \<and> length bs < chunkSize st \<and>
        \<not> currentChunkLatency st ob < 0"
  then show "emitted (fst (snd (iteration st ob))) =
          [\<lparr>out_i = currentChunkIndex st ob,
            out_chunk = bs @ replicate (chunkSize st - length bs) 0\<rparr>]"
    by (simp add: iteration_def complete_chunk_fits)
next
  fix n :: nat and bs :: "byte list" and start dur :: real
  assume a: "3 \<le> n \<and> length bs = n + 3 \<and> 0 < dur"
  then show "emitted (fst (snd (chunker_run (new_AudioChunkStream start dur n)
                             (S3_events n bs start dur)))) =
          [\<lparr>out_i = 0, out_chunk = take n bs\<rparr>,
           \<lparr>out_i = 1, out_chunk = drop n bs @ replicate (n - 3) 0\<rparr>]"
    by (simp add: S3_run)
qed

theorem chunker_chunk_size_witness:
  "(3 :: nat) \<le> 4 \<and> length [1, 2, 3, 4, 5, 6, 7 :: byte] = 4 + 3 \<and> (0 :: real) < 20 \<and>
   emitted (fst (snd (chunker_run (new_AudioChunkStream 1000 20 4)
                        (S3_events 4 [1, 2, 3, 4, 5, 6, 7] 1000 20)))) =
     [\<lparr>out_i = 0, out_chunk = [1, 2, 3, 4]\<rparr>, \<lparr>out_i = 1, out_chunk = [5, 6, 7, 0]\<rparr>]"
proof -
  have h: "(3 :: nat) \<le> 4 \<and> length [1, 2, 3, 4, 5, 6, 7 :: byte] = 4 + 3 \<and> (0 :: real) < 20"
    by simp
  from chunker_chunk_size [THEN conjunct2, THEN conjunct2, rule_format, OF h, of 1000] h
  show ?thesis by simp
qed

subsection \<open>The idle counter\<close>

lemma idle_run_snoc_NoData [simp]: "idle_run (xs @ [NoData]) = Suc (idle_run xs)"
  by (simp add: idle_run_def)

lemma idle_run_snoc_other [simp]: "a \<noteq> NoData \<Longrightarrow> idle_run (xs @ [a]) = 0"
  by (simp add: idle_run_def)

lemma idle_run_Nil [simp]: "idle_run [] = 0"
  by (simp add: idle_run_def)

lemma idle_run_suffix:
  assumes "n \<le> idle_run xs"
  shows "\<exists>pre. xs = pre @ replicate n NoData"
proof -
  let ?t = "takeWhile (\<lambda>a. a = NoData) (rev xs)"
  let ?d = "dropWhile (\<lambda>a. a = NoData) (rev xs)"
  have "\<forall>a\<in>set ?t. a = NoData" by (auto dest: set_takeWhileD)
  then have t: "?t = replicate (idle_run xs) NoData"
    by (simp add: idle_run_def replicate_length_same)
  have "rev xs = ?t @ ?d" by simp
  then have "xs = rev ?d @ rev ?t" by (metis rev_append rev_rev_ident)
  also have "rev ?t = replicate (idle_run xs - n + n) NoData" using assms t by simp
  also have "\<dots> = replicate (idle_run xs - n) NoData @ replicate n NoData"
    by (simp only: replicate_add)
  finally have "xs = (rev ?d @ replicate (idle_run xs - n) NoData) @ replicate n NoData"
    by simp
  then show ?thesis by blast
qed



lemma stops_after_five_snoc:
  assumes "stops_after_five xs" "a \<noteq> Stopped"
  shows "stops_after_five (xs @ [a])"
  unfolding stops_after_five_def
proof (intro allI impI)
  fix pre post assume e: "xs @ [a] = pre @ Stopped # post"
  show "\<exists>pre'. pre = pre' @ replicate 5 NoData"
  proof (cases post rule: rev_cases)
    case Nil
    with e assms(2) show ?thesis by simp
  next
    case (snoc post' b)
    with e have "xs = pre @ Stopped # post'" by simp
    with assms(1) show ?thesis by (auto simp: stops_after_five_def)
  qed
qed

lemma stops_after_five_stop:
  assumes "stops_after_five xs" "5 \<le> idle_run xs"
  shows "stops_after_five (xs @ [Stopped])"
  unfolding stops_after_five_def
proof (intro allI impI)
  fix pre post assume e: "xs @ [Stopped] = pre @ Stopped # post"
  show "\<exists>pre'. pre = pre' @ replicate 5 NoData"
  proof (cases post rule: rev_cases)
    case Nil
    with e have "pre = xs" by simp
    with idle_run_suffix [OF assms(2)] show ?thesis by simp
  next
    case (snoc post' b)
    with e have "xs = pre @ Stopped # post'" by simp
    with assms(1) show ?thesis by (auto simp: stops_after_five_def)
  qed
qed

lemma chunker_run_idle:
  assumes "chunker_run st evs = (st', acts, r)"
    and "loopIterationWithoutData st = idle_run pre" "stops_after_five pre"
  shows "loopIterationWithoutData st' = idle_run (pre @ acts) \<and> stops_after_five (pre @ acts)"
proof -
  let ?P = "\<lambda>s p. loopIterationWithoutData s = idle_run p \<and> stops_after_five p"
  show "?P st' (pre @ acts)"
  proof (rule chunker_run_invariant [of ?P, OF _ _ _ _ assms(1)])
    fix s p ob s' a oc
    assume p: "?P s p" and it: "iteration s ob = (s', a, oc)"
    show "?P s' (p @ a)"
    proof (cases rule: iteration_cases [of s ob])
      case future
      with p it show ?thesis by auto
    next
      case nodata
      with p it show ?thesis by (auto simp: stops_after_five_snoc)
    next
      case stop
      from p have "stops_after_five (p @ [NoData])" by (simp add: stops_after_five_snoc)
      moreover from p stop(3) have "5 \<le> idle_run (p @ [NoData])" by simp
      ultimately have "stops_after_five ((p @ [NoData]) @ [Stopped])"
        by (rule stops_after_five_stop)
      moreover have "idle_run ((p @ [NoData]) @ [Stopped]) = 0" by (rule idle_run_snoc_other) simp
      ultimately show ?thesis using stop(4) it by auto
    next
      case (raise chunk)
      with p it show ?thesis by (auto simp: stops_after_five_snoc)
    next
      case (emit chunk)
      with p it show ?thesis by (auto simp: stops_after_five_snoc)
    qed
  next
    fix s p assume "?P s p"
    then show "?P (s\<lparr>loopIterationWithoutData := 0\<rparr>) (p @ [Signal])"
      by (simp add: stops_after_five_snoc)
  next
    fix s p assume "?P s p"
    then show "?P (s\<lparr>readInterval := True\<rparr>) p" by simp
  qed (use assms in simp)
qed

lemma pushNecessaryChunks_timer:
  assumes "pushNecessaryChunks st obs = (st', acts, r)" "readInterval st"
  shows "(Stopped \<in> set acts \<longrightarrow>
            \<not> readInterval st' \<and> lastEmittedChunkIndex st' = - 1 \<and>
            loopIterationWithoutData st' = 0) \<and>
         (Stopped \<notin> set acts \<longrightarrow> readInterval st')"
  using assms
proof (induction obs arbitrary: st st' acts r)
  case Nil
  then show ?case by simp
next
  case (Cons ob obs)
  show ?case
  proof (cases rule: iteration_cases [of st ob])
    case future
    with Cons.prems show ?thesis by auto
  next
    case nodata
    with Cons.prems show ?thesis by auto
  next
    case stop
    with Cons.prems show ?thesis by auto
  next
    case (raise chunk)
    with Cons.prems show ?thesis by auto
  next
    case (emit chunk)
    let ?s1 = "st\<lparr>loopIterationWithoutData := 0,
                  lastEmittedChunkIndex := currentChunkIndex st ob\<rparr>"
    obtain st2 a2 r2 where pu: "pushNecessaryChunks ?s1 obs = (st2, a2, r2)"
      by (cases "pushNecessaryChunks ?s1 obs")
    from Cons.IH [OF pu] Cons.prems(2)
    have "(Stopped \<in> set a2 \<longrightarrow>
            \<not> readInterval st2 \<and> lastEmittedChunkIndex st2 = - 1 \<and>
            loopIterationWithoutData st2 = 0) \<and>
         (Stopped \<notin> set a2 \<longrightarrow> readInterval st2)" by simp
    with Cons.prems(1) emit(4) pu show ?thesis by auto
  qed
qed

lemma pushNecessaryChunks_no_stop:
  assumes "pushNecessaryChunks st obs = (st', acts, r)" "loopIterationWithoutData st = 0"
  shows "Stopped \<notin> set acts \<and> loopIterationWithoutData st' \<le> 1"
  using assms
proof (induction obs arbitrary: st st' acts r)
  case Nil
  then show ?case by simp
next
  case (Cons ob obs)
  show ?case
  proof (cases rule: iteration_cases [of st ob])
    case future
    with Cons.prems show ?thesis by auto
  next
    case nodata
    with Cons.prems show ?thesis by auto
  next
    case stop
    with Cons.prems show ?thesis by auto
  next
    case (raise chunk)
    with Cons.prems show ?thesis by auto
  next
    case (emit chunk)
    let ?s1 = "st\<lparr>loopIterationWithoutData := 0,
                  lastEmittedChunkIndex := currentChunkIndex st ob\<rparr>"
    obtain st2 a2 r2 where pu: "pushNecessaryChunks ?s1 obs = (st2, a2, r2)"
      by (cases "pushNecessaryChunks ?s1 obs")
    from Cons.IH [OF pu] have "Stopped \<notin> set a2 \<and> loopIterationWithoutData st2 \<le> 1" by simp
    with Cons.prems(1) emit(4) pu show ?thesis by auto
  qed
qed

lemma handle_event_timer:
  assumes "handle_event st ev = (st', acts, r)"
  shows "(Stopped \<in> set acts \<longrightarrow>
            \<not> readInterval st' \<and> lastEmittedChunkIndex st' = - 1 \<and>
            loopIterationWithoutData st' = 0) \<and>
         (readInterval st \<and> \<not> readInterval st' \<longrightarrow> Stopped \<in> set acts)"
proof (cases ev)
  case (Tick obs)
  show ?thesis
  proof (cases "readInterval st")
    case True
    with assms Tick have "pushNecessaryChunks st obs = (st', acts, r)" by simp
    from pushNecessaryChunks_timer [OF this True] show ?thesis by blast
  next
    case False
    with assms Tick show ?thesis by simp
  qed
next
  case (Readable obs)
  let ?st0 = "st\<lparr>loopIterationWithoutData := 0\<rparr>"
  show ?thesis
  proof (cases "readInterval st")
    case True
    with assms Readable show ?thesis by (auto simp: startReadLoop_def)
  next
    case False
    obtain st1 a1 r1 where pu: "pushNecessaryChunks ?st0 obs = (st1, a1, r1)"
      by (cases "pushNecessaryChunks ?st0 obs")
    from pushNecessaryChunks_no_stop [OF pu] have "Stopped \<notin> set a1" by simp
    moreover from assms Readable False pu have "acts = Signal # a1"
      by (cases r1) (auto simp: startReadLoop_def)
    ultimately show ?thesis using False by simp
  qed
qed

lemma stall_trace_run: "chunker_trace 1000 20 4 stall_events = stall_trace"
  by (simp add: chunker_trace_def stall_trace_def stall_events_def new_AudioChunkStream_def
      startReadLoop_def iteration_def observed_def stall_chunk_def stopReadLoop_def
      currentChunkIndex_def currentChunkLatency_def complete_chunk_def
      MIN_LOOP_ITERATION_WITHOUT_DATA_TO_STOP_READING_def Let_def)


text \<open>
  Claim C10. A \<open>readable\<close> event sets the counter \<open>loopIterationWithoutData\<close> to zero also
  when the timer is already set, in which case it does nothing else; after the handler of
  a \<open>readable\<close> event the counter is at most 1. In the trace of every run from a freshly
  constructed chunker, every call of \<open>stopReadLoop\<close> comes right after five reads without
  data, with no \<open>readable\<close> event and no chunk emitted between them. A handler that calls
  \<open>stopReadLoop\<close> ends with the timer cleared, no last index and the counter at zero, and
  the timer is cleared by no other handler.
\<close>

theorem chunker_readable_resets_idle_counter:
  "(\<forall>st obs. readInterval st \<longrightarrow>
       handle_event st (Readable obs) = (st\<lparr>loopIterationWithoutData := 0\<rparr>, [Signal], Returned)) \<and>
   (\<forall>st obs. loopIterationWithoutData (fst (handle_event st (Readable obs))) \<le> 1) \<and>
   (\<forall>start dur n evs pre post.
       fst (snd (chunker_run (new_AudioChunkStream start dur n) evs)) = pre @ Stopped # post \<longrightarrow>
       (\<exists>pre'. pre = pre' @ replicate 5 NoData)) \<and>
   (\<forall>st ev. Stopped \<in> set (fst (snd (handle_event st ev))) \<longrightarrow>
       \<not> readInterval (fst (handle_event st ev)) \<and>
       lastEmittedChunkIndex (fst (handle_event st ev)) = - 1 \<and>
       loopIterationWithoutData (fst (handle_event st ev)) = 0) \<and>
   (\<forall>st ev. readInterval st \<and> \<not> readInterval (fst (handle_event st ev)) \<longrightarrow>
       Stopped \<in> set (fst (snd (handle_event st ev))))"
proof (intro conjI allI impI)
  fix st :: AudioChunkStream and obs assume "readInterval st"
  then show "handle_event st (Readable obs) =
      (st\<lparr>loopIterationWithoutData := 0\<rparr>, [Signal], Returned)"
    by (simp add: startReadLoop_def)
next
  fix st :: AudioChunkStream and obs
  let ?st0 = "st\<lparr>loopIterationWithoutData := 0\<rparr>"
  obtain st1 a1 r1 where pu: "pushNecessaryChunks ?st0 obs = (st1, a1, r1)"
    by (cases "pushNecessaryChunks ?st0 obs")
  from pushNecessaryChunks_no_stop [OF pu] have "loopIterationWithoutData st1 \<le> 1" by simp
  with pu show "loopIterationWithoutData (fst (handle_event st (Readable obs))) \<le> 1"
    by (cases r1; cases "readInterval st") (auto simp: startReadLoop_def Let_def)
next
  fix start dur n evs pre post
  assume a: "fst (snd (chunker_run (new_AudioChunkStream start dur n) evs)) = pre @ Stopped # post"
  obtain st' acts r where c: "chunker_run (new_AudioChunkStream start dur n) evs = (st', acts, r)"
    by (cases "chunker_run (new_AudioChunkStream start dur n) evs")
  have "stops_after_five ([] @ acts)"
    using chunker_run_idle [OF c, of "[]"]
    by (simp add: new_AudioChunkStream_def stops_after_five_def)
  with a c show "\<exists>pre'. pre = pre' @ replicate 5 NoData"
    by (simp add: stops_after_five_def)
next
  fix st :: AudioChunkStream and ev
  assume a: "Stopped \<in> set (fst (snd (handle_event st ev)))"
  obtain st' acts r where h: "handle_event st ev = (st', acts, r)" by (cases "handle_event st ev")
  from handle_event_timer [OF h] a h
  have "\<not> readInterval (fst (handle_event st ev)) \<and>
       lastEmittedChunkIndex (fst (handle_event st ev)) = - 1 \<and>
       loopIterationWithoutData (fst (handle_event st ev)) = 0" by simp
  then show "\<not> readInterval (fst (handle_event st ev))"
    "lastEmittedChunkIndex (fst (handle_event st ev)) = - 1"
    "loopIterationWithoutData (fst (handle_event st ev)) = 0" by simp_all
next
  fix st :: AudioChunkStream and ev
  assume a: "readInterval st \<and> \<not> readInterval (fst (handle_event st ev))"
  obtain st' acts r where h: "handle_event st ev = (st', acts, r)" by (cases "handle_event st ev")
  from handle_event_timer [OF h] a h
  show "Stopped \<in> set (fst (snd (handle_event st ev)))" by simp
qed

theorem chunker_readable_resets_idle_counter_witness:
  "fst (snd (chunker_run (new_AudioChunkStream 1000 20 4) stall_events)) =
     [Signal, Emit 1000 1000 \<lparr>out_i = 0, out_chunk = stall_chunk\<rparr>,
      Emit 1020 1020 \<lparr>out_i = 1, out_chunk = stall_chunk\<rparr>, NoData, Signal,
      Emit 1060 1060 \<lparr>out_i = 2, out_chunk = stall_chunk\<rparr>,
      NoData, NoData, NoData, NoData, NoData] @ Stopped #
     [Signal, Emit 1141 1141 \<lparr>out_i = 7, out_chunk = stall_chunk\<rparr>] \<and>
   (\<exists>pre'. [Signal, Emit 1000 1000 \<lparr>out_i = 0, out_chunk = stall_chunk\<rparr>,
      Emit 1020 1020 \<lparr>out_i = 1, out_chunk = stall_chunk\<rparr>, NoData, Signal,
      Emit 1060 1060 \<lparr>out_i = 2, out_chunk = stall_chunk\<rparr>,
      NoData, NoData, NoData, NoData, NoData] = pre' @ replicate 5 NoData)"
proof -
  have h: "fst (snd (chunker_run (new_AudioChunkStream 1000 20 4) stall_events)) =
     [Signal, Emit 1000 1000 \<lparr>out_i = 0, out_chunk = stall_chunk\<rparr>,
      Emit 1020 1020 \<lparr>out_i = 1, out_chunk = stall_chunk\<rparr>, NoData, Signal,
      Emit 1060 1060 \<lparr>out_i = 2, out_chunk = stall_chunk\<rparr>,
      NoData, NoData, NoData, NoData, NoData] @ Stopped #
     [Signal, Emit 1141 1141 \<lparr>out_i = 7, out_chunk = stall_chunk\<rparr>]"
    using stall_trace_run by (simp add: chunker_trace_def stall_trace_def)
  from chunker_readable_resets_idle_counter
    [THEN conjunct2, THEN conjunct2, THEN conjunct1, rule_format, OF h] h
  show ?thesis by blast
qed

subsection \<open>The index law along a trace\<close>

lemma last_after_append [simp]:
  "last_after l (xs @ ys) = last_after (last_after l xs) ys"
  by (induction l xs rule: last_after.induct) simp_all









subsection \<open>Whole milliseconds: exact arithmetic and strictly increasing indices\<close>

lemma min_after_append [simp]: "min_after m (xs @ ys) = min_after (min_after m xs) ys"
  by (induction m xs rule: min_after.induct) simp_all

lemma rising_append [simp]:
  "rising m (xs @ ys) \<longleftrightarrow> rising m xs \<and> rising (min_after m xs) ys"
  by (induction m xs rule: rising.induct) simp_all










subsection \<open>Runs on times that are no whole numbers\<close>





subsection \<open>The index law\<close>




end
